theory Spec2Isabelle
  imports Main "HOL-Library.Sublist"
begin

section \<open>Python strings as lists of code points\<close>

text \<open>
  A Python \<open>str\<close> is a sequence of Unicode code points, so a string is modelled as a
  list of natural numbers (one per code point), and a \<open>bytes\<close> object as a list of
  numbers below 256.  ASCII text is written with \<open>asc\<close>.
\<close>

type_synonym ustr = "nat list"

definition asc :: "string \<Rightarrow> ustr" where
  "asc cs = map of_char cs"

subsection \<open>The string methods the program uses\<close>

text \<open>\<open>pat in s\<close>: \<open>pat\<close> occurs as a contiguous substring of \<open>s\<close>.\<close>

fun py_in :: "ustr \<Rightarrow> ustr \<Rightarrow> bool" where
  "py_in pat [] = (pat = [])"
| "py_in pat (c # cs) = (prefix pat (c # cs) \<or> py_in pat cs)"

text \<open>\<open>s.count(ch)\<close> for a one-character argument.\<close>

definition py_count :: "nat \<Rightarrow> ustr \<Rightarrow> nat" where
  "py_count ch s = length (filter (\<lambda>c. c = ch) s)"

text \<open>
  \<open>s.replace(old, new)\<close>: the non-overlapping occurrences of \<open>old\<close>, found from left to
  right, are replaced.  For an empty \<open>old\<close> Python inserts \<open>new\<close> before every character
  and at the end.
\<close>

function py_replace :: "ustr \<Rightarrow> ustr \<Rightarrow> ustr \<Rightarrow> ustr" where
  "py_replace old new [] = (if old = [] then new else [])"
| "py_replace old new (c # cs) =
     (if old = [] then new @ c # py_replace old new cs
      else if prefix old (c # cs)
        then new @ py_replace old new (drop (length old) (c # cs))
      else c # py_replace old new cs)"
  by pat_completeness auto
termination
  by (relation "measure (\<lambda>(old, new, s). length s)") auto

text \<open>
  \<open>s.strip()\<close> removes leading and trailing characters for which \<open>str.isspace\<close> holds.
\<close>

definition py_isspace :: "nat \<Rightarrow> bool" where
  "py_isspace c \<longleftrightarrow>
     (0x09 \<le> c \<and> c \<le> 0x0D) \<or> (0x1C \<le> c \<and> c \<le> 0x20) \<or> c = 0x85 \<or> c = 0xA0
     \<or> c = 0x1680 \<or> (0x2000 \<le> c \<and> c \<le> 0x200A) \<or> c = 0x2028 \<or> c = 0x2029
     \<or> c = 0x202F \<or> c = 0x205F \<or> c = 0x3000"

definition py_strip :: "ustr \<Rightarrow> ustr" where
  "py_strip s = rev (dropWhile py_isspace (rev (dropWhile py_isspace s)))"

definition py_startswith :: "ustr \<Rightarrow> ustr \<Rightarrow> bool" where
  "py_startswith s p = prefix p s"

definition py_endswith :: "ustr \<Rightarrow> ustr \<Rightarrow> bool" where
  "py_endswith s p = suffix p s"

text \<open>
  \<open>s.find(ch, start)\<close> for a one-character argument, searching the list that starts at
  \<open>start\<close>: the offset of the first occurrence, or \<open>None\<close> for Python's \<open>-1\<close>.
\<close>

fun py_find :: "nat \<Rightarrow> ustr \<Rightarrow> nat option" where
  "py_find ch [] = None"
| "py_find ch (c # cs) =
     (if c = ch then Some 0 else map_option Suc (py_find ch cs))"

subsection \<open>The codecs\<close>

text \<open>
  \<open>s.encode("latin-1", errors="ignore")\<close>: a code point below 256 is its own byte, any
  other is dropped.
\<close>

definition encode_latin1_ignore :: "ustr \<Rightarrow> nat list" where
  "encode_latin1_ignore s = filter (\<lambda>c. c < 256) s"

text \<open>
  \<open>s.encode("cp1252", errors="ignore")\<close>: ASCII and \<open>U+00A0..U+00FF\<close> are their own
  bytes, the 27 characters of the Windows-1252 block \<open>0x80..0x9F\<close> have the bytes of
  the code page, any other code point is dropped.
\<close>

definition cp1252_specials :: "(nat \<times> nat) list" where
  "cp1252_specials =
     [(0x20AC, 0x80), (0x201A, 0x82), (0x0192, 0x83), (0x201E, 0x84), (0x2026, 0x85),
      (0x2020, 0x86), (0x2021, 0x87), (0x02C6, 0x88), (0x2030, 0x89), (0x0160, 0x8A),
      (0x2039, 0x8B), (0x0152, 0x8C), (0x017D, 0x8E), (0x2018, 0x91), (0x2019, 0x92),
      (0x201C, 0x93), (0x201D, 0x94), (0x2022, 0x95), (0x2013, 0x96), (0x2014, 0x97),
      (0x02DC, 0x98), (0x2122, 0x99), (0x0161, 0x9A), (0x203A, 0x9B), (0x0153, 0x9C),
      (0x017E, 0x9E), (0x0178, 0x9F)]"

definition cp1252_byte :: "nat \<Rightarrow> nat option" where
  "cp1252_byte c =
     (if c < 0x80 \<or> (0xA0 \<le> c \<and> c < 0x100) then Some c
      else map_of cp1252_specials c)"

definition encode_cp1252_ignore :: "ustr \<Rightarrow> nat list" where
  "encode_cp1252_ignore s = List.map_filter cp1252_byte s"

text \<open>
  \<open>b.decode("utf-8", errors="ignore")\<close>, as CPython decodes: an invalid start byte
  is skipped; a lead byte whose next byte cannot continue it is skipped alone; a lead
  byte with valid continuation bytes followed by a wrong one is skipped with those
  continuation bytes; a sequence cut off by the end of the input is skipped to the end.
  Overlong forms, surrogates and code points above \<open>U+10FFFF\<close> are invalid.
\<close>

definition is_cont :: "nat \<Rightarrow> bool" where
  "is_cont b \<longleftrightarrow> 0x80 \<le> b \<and> b < 0xC0"

fun decode_utf8_ignore :: "nat list \<Rightarrow> ustr" where
  "decode_utf8_ignore [] = []"
| "decode_utf8_ignore (b # bs) =
     (if b < 0x80 then b # decode_utf8_ignore bs
      else if b < 0xC2 then decode_utf8_ignore bs
      else if b < 0xE0 then
        (case bs of
           [] \<Rightarrow> []
         | b2 # r \<Rightarrow>
             if is_cont b2
             then ((b - 0xC0) * 64 + (b2 - 0x80)) # decode_utf8_ignore r
             else decode_utf8_ignore bs)
      else if b < 0xF0 then
        (case bs of
           [] \<Rightarrow> []
         | b2 # r \<Rightarrow>
             if \<not> is_cont b2 \<or> (b = 0xE0 \<and> b2 < 0xA0) \<or> (b = 0xED \<and> 0xA0 \<le> b2)
             then decode_utf8_ignore bs
             else (case r of
                     [] \<Rightarrow> []
                   | b3 # r' \<Rightarrow>
                       if is_cont b3
                       then ((b - 0xE0) * 4096 + (b2 - 0x80) * 64 + (b3 - 0x80))
                              # decode_utf8_ignore r'
                       else decode_utf8_ignore r))
      else if b < 0xF5 then
        (case bs of
           [] \<Rightarrow> []
         | b2 # r \<Rightarrow>
             if \<not> is_cont b2 \<or> (b = 0xF0 \<and> b2 < 0x90) \<or> (b = 0xF4 \<and> 0x90 \<le> b2)
             then decode_utf8_ignore bs
             else (case r of
                     [] \<Rightarrow> []
                   | b3 # r' \<Rightarrow>
                       if \<not> is_cont b3 then decode_utf8_ignore r
                       else (case r' of
                               [] \<Rightarrow> []
                             | b4 # r'' \<Rightarrow>
                                 if is_cont b4
                                 then ((b - 0xF0) * 262144 + (b2 - 0x80) * 4096
                                         + (b3 - 0x80) * 64 + (b4 - 0x80))
                                        # decode_utf8_ignore r''
                                 else decode_utf8_ignore r')))
      else decode_utf8_ignore bs)"

section \<open>Constants of the program\<close>

definition FULLWIDTH_BAR :: nat where
  "FULLWIDTH_BAR = 0xFF5C"

definition SPM_BLOCK :: nat where
  "SPM_BLOCK = 0x2581"

definition CANON_BOS :: ustr where
  "CANON_BOS = asc ''<'' @ [FULLWIDTH_BAR] @ asc ''begin'' @ [SPM_BLOCK] @ asc ''of''
     @ [SPM_BLOCK] @ asc ''sentence'' @ [FULLWIDTH_BAR] @ asc ''>''"

definition CANON_EOS :: ustr where
  "CANON_EOS = asc ''<'' @ [FULLWIDTH_BAR] @ asc ''end'' @ [SPM_BLOCK] @ asc ''of''
     @ [SPM_BLOCK] @ asc ''sentence'' @ [FULLWIDTH_BAR] @ asc ''>''"

definition CANON_USER :: ustr where
  "CANON_USER = asc ''<'' @ [FULLWIDTH_BAR] @ asc ''User'' @ [FULLWIDTH_BAR] @ asc ''>''"

definition CANON_ASSISTANT :: ustr where
  "CANON_ASSISTANT =
     asc ''<'' @ [FULLWIDTH_BAR] @ asc ''Assistant'' @ [FULLWIDTH_BAR] @ asc ''>''"

definition ZERO_WIDTHS :: "nat list" where
  "ZERO_WIDTHS = [0xFEFF, 0x200B, 0x2060, 0x200D, 0x200C, 0x200E, 0x200F, 0xFE0E, 0xFE0F]"

definition SPACE_VARIANTS :: "nat list" where
  "SPACE_VARIANTS = [0x00A0, 0x202F, 0x2007, 0x2009]"

definition CURLY_TO_ASCII :: "(nat \<times> nat) list" where
  "CURLY_TO_ASCII = [(0x2018, 0x27), (0x2019, 0x27), (0x201C, 0x22), (0x201D, 0x22)]"

definition DASHES_TO_ASCII_HYPHEN :: "nat list" where
  "DASHES_TO_ASCII_HYPHEN = [0x2010, 0x2011, 0x2013, 0x2014]"

text \<open>
  The three literals of known corruption that the source writes out.  The second is
  written with the escape \<open>\x81\<close> and the third with the character \<open>U+0081\<close> itself, so
  the two are the same string.
\<close>

definition MOJI_BAR :: ustr where
  "MOJI_BAR = [0xEF, 0xBD, 0x153]"

definition MOJI_BLOCK_ESC :: ustr where
  "MOJI_BLOCK_ESC = [0xE2, 0x2013, 0x81]"

definition MOJI_BLOCK_LIT :: ustr where
  "MOJI_BLOCK_LIT = [0xE2, 0x2013, 0x81]"

section \<open>Text Repair Engine\<close>

text \<open>
  \<open>unicodedata.normalize("NFC", _)\<close> belongs to Python's standard library and is driven
  by the tables of the Unicode Character Database, so it is a parameter \<open>nfc\<close> of every
  function that reaches it.
\<close>

type_synonym normalizer = "ustr \<Rightarrow> ustr"

text \<open>
  The two re-encoding attempts.  Each sits in a \<open>try\<close> block of the source; \<open>None\<close>
  stands for the \<open>except\<close> branch.  With \<open>errors="ignore"\<close> neither codec raises, so
  both attempts succeed on every string.
\<close>

definition latin1_attempt :: "ustr \<Rightarrow> ustr option" where
  "latin1_attempt s = Some (decode_utf8_ignore (encode_latin1_ignore s))"

definition cp1252_attempt :: "ustr \<Rightarrow> ustr option" where
  "cp1252_attempt s = Some (decode_utf8_ignore (encode_cp1252_ignore s))"

definition direct :: "ustr \<Rightarrow> ustr" where
  "direct s =
     py_replace MOJI_BLOCK_LIT [SPM_BLOCK]
       (py_replace MOJI_BLOCK_ESC [SPM_BLOCK]
         (py_replace MOJI_BAR [FULLWIDTH_BAR] s))"

text \<open>
  The list \<open>candidates\<close> as the source builds it from the outcomes of the two attempts:
  a failed first attempt appends \<open>s\<close>, a failed second attempt appends nothing
  (\<open>pass\<close>), and \<open>direct\<close> is always appended last.  The first element always exists.
\<close>

definition first_candidate :: "ustr option \<Rightarrow> ustr \<Rightarrow> ustr" where
  "first_candidate l s = (case l of Some t \<Rightarrow> t | None \<Rightarrow> s)"

definition later_candidates :: "ustr option \<Rightarrow> ustr \<Rightarrow> ustr list" where
  "later_candidates c s = (case c of Some t \<Rightarrow> [t] | None \<Rightarrow> []) @ [direct s]"

definition candidates :: "ustr option \<Rightarrow> ustr option \<Rightarrow> ustr \<Rightarrow> ustr list" where
  "candidates l c s = first_candidate l s # later_candidates c s"

definition score :: "ustr \<Rightarrow> int \<times> int" where
  "score t =
     (let remnants = of_bool (py_in MOJI_BAR t) + of_bool (py_in MOJI_BLOCK_ESC t)
                       + of_bool (py_in MOJI_BLOCK_LIT t);
          canon = py_count FULLWIDTH_BAR t + py_count SPM_BLOCK t
      in (remnants, - int canon))"

text \<open>Python compares tuples lexicographically.\<close>

fun tuple_lt :: "int \<times> int \<Rightarrow> int \<times> int \<Rightarrow> bool" where
  "tuple_lt (a, b) (c, d) = (a < c \<or> (a = c \<and> b < d))"

text \<open>
  \<open>min(xs, key=k)\<close> on a list with first element \<open>b\<close>: the running best is replaced
  only by a strictly smaller key, so the first minimal element wins.
\<close>

fun py_min_by :: "('a \<Rightarrow> int \<times> int) \<Rightarrow> 'a \<Rightarrow> 'a list \<Rightarrow> 'a" where
  "py_min_by k b [] = b"
| "py_min_by k b (x # xs) = py_min_by k (if tuple_lt (k x) (k b) then x else b) xs"

definition best_candidate :: "ustr option \<Rightarrow> ustr option \<Rightarrow> ustr \<Rightarrow> ustr" where
  "best_candidate l c s = py_min_by score (first_candidate l s) (later_candidates c s)"

definition demojibake_and_normalize :: "normalizer \<Rightarrow> ustr \<Rightarrow> ustr" where
  "demojibake_and_normalize nfc s =
     nfc (best_candidate (latin1_attempt s) (cp1252_attempt s) s)"

section \<open>Structural Cleaner\<close>

definition strip_zero_width_and_variation :: "ustr \<Rightarrow> ustr" where
  "strip_zero_width_and_variation s = filter (\<lambda>ch. ch \<notin> set ZERO_WIDTHS) s"

definition normalize_char :: "nat \<Rightarrow> nat" where
  "normalize_char ch =
     (if ch \<in> set SPACE_VARIANTS then 0x20
      else case map_of CURLY_TO_ASCII ch of
             Some q \<Rightarrow> q
           | None \<Rightarrow> if ch \<in> set DASHES_TO_ASCII_HYPHEN then 0x2D else ch)"

definition normalize_space_dash_quotes_inside :: "ustr \<Rightarrow> ustr" where
  "normalize_space_dash_quotes_inside s = map normalize_char s"

definition standardize_line_endings :: "ustr \<Rightarrow> ustr" where
  "standardize_line_endings s =
     py_replace [0x0D] [0x0A] (py_replace [0x0D, 0x0A] [0x0A] s)"

definition is_angle_bracketed :: "ustr \<Rightarrow> bool" where
  "is_angle_bracketed s \<longleftrightarrow>
     2 \<le> length s \<and> py_startswith s (asc ''<'') \<and> py_endswith s (asc ''>'')"

section \<open>Marker Canonicalizer\<close>

text \<open>The dictionary \<open>candidates\<close> of the source, from payload to canonical marker.\<close>

definition marker_table :: "(ustr \<times> ustr) list" where
  "marker_table =
     [([FULLWIDTH_BAR] @ asc ''begin'' @ [SPM_BLOCK] @ asc ''of'' @ [SPM_BLOCK]
         @ asc ''sentence'' @ [FULLWIDTH_BAR], CANON_BOS),
      ([FULLWIDTH_BAR] @ asc ''end'' @ [SPM_BLOCK] @ asc ''of'' @ [SPM_BLOCK]
         @ asc ''sentence'' @ [FULLWIDTH_BAR], CANON_EOS),
      ([FULLWIDTH_BAR] @ asc ''User'' @ [FULLWIDTH_BAR], CANON_USER),
      ([FULLWIDTH_BAR] @ asc ''Assistant'' @ [FULLWIDTH_BAR], CANON_ASSISTANT)]"

definition looks_like_one_of_four_chat_markers :: "ustr \<Rightarrow> bool \<times> ustr" where
  "looks_like_one_of_four_chat_markers s =
     (if length s < 3 then (False, s)
      else if py_startswith s (asc ''<'') \<and> py_endswith s (asc ''>'') \<and> 2 \<le> length s
      then
        (let inner = butlast (tl s);
             inner_cmp = py_replace (asc ''|'') [FULLWIDTH_BAR] inner
         in case map_of marker_table inner_cmp of
              Some canon \<Rightarrow> (True, canon)
            | None \<Rightarrow> (False, s))
      else (False, s))"

definition cleanup_marker_like_string :: "normalizer \<Rightarrow> ustr \<Rightarrow> ustr" where
  "cleanup_marker_like_string nfc s =
     (let t = demojibake_and_normalize nfc s;
          t = strip_zero_width_and_variation t;
          t = standardize_line_endings t;
          t = normalize_space_dash_quotes_inside t;
          t = py_strip t;
          (ok, canon) = looks_like_one_of_four_chat_markers t
      in if ok then canon else t)"

definition has_mojibake_remnants :: "ustr \<Rightarrow> bool" where
  "has_mojibake_remnants s \<longleftrightarrow>
     py_in MOJI_BAR s \<or> py_in MOJI_BLOCK_ESC s \<or> py_in MOJI_BLOCK_LIT s"

section \<open>Chat-template text\<close>

text \<open>
  The scanning loop of \<open>fix_markers_in_text\<close> on the text from position \<open>i\<close> on: at a
  \<open><\<close> with a later \<open>>\<close> the segment up to that \<open>>\<close> is cleaned as a whole and the
  scan continues behind it; any other character is copied.
\<close>

function scan_segments :: "normalizer \<Rightarrow> ustr \<Rightarrow> ustr" where
  "scan_segments nfc [] = []"
| "scan_segments nfc (c # cs) =
     (if c = 0x3C then
        (case py_find 0x3E cs of
           Some k \<Rightarrow>
             cleanup_marker_like_string nfc (c # take (Suc k) cs)
               @ scan_segments nfc (drop (Suc k) cs)
         | None \<Rightarrow> c # scan_segments nfc cs)
      else c # scan_segments nfc cs)"
  by pat_completeness auto
termination
  by (relation "measure (\<lambda>(nfc, s). length s)") auto

definition fix_markers_in_text :: "normalizer \<Rightarrow> ustr \<Rightarrow> ustr" where
  "fix_markers_in_text nfc s =
     (let t = demojibake_and_normalize nfc s;
          t = strip_zero_width_and_variation t;
          t = standardize_line_endings t
      in scan_segments nfc t)"

section \<open>Documents\<close>

text \<open>
  What \<open>json.loads\<close> returns: \<open>None\<close>, a bool, a number, a string, a list, or a dict
  whose keys keep their insertion order.  Numbers are taken to be integers.
\<close>

datatype json =
    JNull
  | JBool bool
  | JNum int
  | JStr ustr
  | JArr "json list"
  | JObj "(ustr \<times> json) list"

type_synonym pydict = "(ustr \<times> json) list"

text \<open>\<open>d.get(k)\<close>: the value, or \<open>None\<close> for a missing key.\<close>

definition dict_get :: "pydict \<Rightarrow> ustr \<Rightarrow> json" where
  "dict_get d k = (case map_of d k of Some v \<Rightarrow> v | None \<Rightarrow> JNull)"

text \<open>\<open>d[k] = v\<close>: an existing key keeps its place, a new key goes to the end.\<close>

fun dict_set :: "ustr \<Rightarrow> json \<Rightarrow> pydict \<Rightarrow> pydict" where
  "dict_set k v [] = [(k, v)]"
| "dict_set k v (p # ps) = (if fst p = k then (k, v) # ps else p # dict_set k v ps)"

text \<open>Truthiness of a value, as \<open>bool(x)\<close> and \<open>if x:\<close> compute it.\<close>

fun py_truthy :: "json \<Rightarrow> bool" where
  "py_truthy JNull = False"
| "py_truthy (JBool b) = b"
| "py_truthy (JNum n) = (n \<noteq> 0)"
| "py_truthy (JStr s) = (s \<noteq> [])"
| "py_truthy (JArr xs) = (xs \<noteq> [])"
| "py_truthy (JObj d) = (d \<noteq> [])"

text \<open>\<open>x in (False,)\<close>: the comparison is \<open>==\<close>, under which \<open>0\<close> equals \<open>False\<close>.\<close>

fun py_in_false_tuple :: "json \<Rightarrow> bool" where
  "py_in_false_tuple (JBool b) = (\<not> b)"
| "py_in_false_tuple (JNum n) = (n = 0)"
| "py_in_false_tuple _ = False"

text \<open>
  The entries of \<open>added_tokens\<close> are mutated in place and later looked up by \<open>id(tok)\<close>,
  so each entry is paired with its object identity: the position at which the loader
  created it.
\<close>

type_synonym obj = "nat \<times> json"

definition load_objs :: "json list \<Rightarrow> obj list" where
  "load_objs xs = zip [0..<length xs] xs"

text \<open>The report of the pass: \<open>modified_count\<close> and the entries of \<open>changes\<close>.\<close>

datatype change =
    AddedTokenChanged nat json ustr ustr
  | DedupHeader
  | DedupRemoved nat json ustr
  | SpecialKeyChanged ustr ustr ustr
  | SpecialTokenChanged nat json ustr ustr
  | SpmapChanged ustr ustr ustr
  | TemplateUpdated

record report =
  modified_count :: nat
  changes :: "change list"

text \<open>Where a validation error was found, and the entries of \<open>errors\<close>.\<close>

datatype place =
    InAdded nat json
  | InSpecialKey ustr
  | InSpecialList nat json

datatype verror =
    SelfTestFailed
  | BosMismatch ustr
  | EosMismatch ustr
  | SpmapFailed
  | BosNotFound
  | EosNotFound
  | Remnants place ustr
  | ZeroWidthLeft place ustr
  | NotSpecial nat json
  | NotUnnormalized nat json
  | TcfgFailed
  | OtherCheck nat

datatype id_error = IdChanged json json json

definition k_content :: ustr where "k_content = asc ''content''"
definition k_id :: ustr where "k_id = asc ''id''"
definition k_special :: ustr where "k_special = asc ''special''"
definition k_normalized :: ustr where "k_normalized = asc ''normalized''"
definition k_added_tokens :: ustr where "k_added_tokens = asc ''added_tokens''"
definition k_special_tokens :: ustr where "k_special_tokens = asc ''special_tokens''"
definition k_bos_token :: ustr where "k_bos_token = asc ''bos_token''"
definition k_eos_token :: ustr where "k_eos_token = asc ''eos_token''"
definition k_chat_template :: ustr where "k_chat_template = asc ''chat_template''"

section \<open>Document Walker: the repair pass\<close>

text \<open>
  The repair of one content string, as every token path of \<open>main\<close> computes \<open>after\<close>
  from \<open>before\<close>.
\<close>

definition repair_content :: "normalizer \<Rightarrow> ustr \<Rightarrow> ustr" where
  "repair_content nfc before_c =
     (let mid = demojibake_and_normalize nfc before_c
      in if is_angle_bracketed mid then cleanup_marker_like_string nfc mid else mid)"

text \<open>Step 1, the body of the loop over \<open>added_tokens\<close>.\<close>

definition process_added_token :: "normalizer \<Rightarrow> nat \<Rightarrow> json \<Rightarrow> report \<Rightarrow> json \<times> report" where
  "process_added_token nfc idx tok r =
     (case tok of
        JObj d \<Rightarrow>
          (case map_of d k_content of
             Some (JStr before_c) \<Rightarrow>
               (let after_c = repair_content nfc before_c;
                    r1 = (if after_c \<noteq> before_c
                          then r\<lparr>modified_count := modified_count r + 1,
                                 changes := changes r
                                   @ [AddedTokenChanged idx (dict_get d k_id) before_c after_c]\<rparr>
                          else r);
                    d1 = (if after_c \<noteq> before_c then dict_set k_content (JStr after_c) d else d);
                    d2 = (if after_c = CANON_BOS \<or> after_c = CANON_EOS
                          then dict_set k_special (JBool True) d1 else d1);
                    d3 = dict_set k_normalized (JBool False) d2
                in (JObj d3, r1))
           | _ \<Rightarrow> (tok, r))
      | _ \<Rightarrow> (tok, r))"

fun process_added_tokens ::
  "normalizer \<Rightarrow> nat \<Rightarrow> obj list \<Rightarrow> report \<Rightarrow> obj list \<times> report" where
  "process_added_tokens nfc idx [] r = ([], r)"
| "process_added_tokens nfc idx ((a, tok) # rest) r =
     (let (tok', r1) = process_added_token nfc idx tok r;
          (rest', r2) = process_added_tokens nfc (Suc idx) rest r1
      in ((a, tok') # rest', r2))"

text \<open>
  The deduplication loop: \<open>seen_content\<close> maps a content to the id of its first entry,
  \<open>dedup_removed\<close> collects (index, id, content) of every dropped entry, \<open>new_list\<close> the
  entries that are kept.
\<close>

fun dedupe_loop ::
  "nat \<Rightarrow> obj list \<Rightarrow> (ustr \<rightharpoonup> json) \<Rightarrow> (nat \<times> json \<times> ustr) list \<Rightarrow> obj list
     \<Rightarrow> (nat \<times> json \<times> ustr) list \<times> obj list" where
  "dedupe_loop idx [] seen removed new_list = (removed, new_list)"
| "dedupe_loop idx ((a, tok) # rest) seen removed new_list =
     (case tok of
        JObj d \<Rightarrow>
          (case dict_get d k_content of
             JStr c \<Rightarrow>
               if c \<in> dom seen
               then dedupe_loop (Suc idx) rest seen
                      (removed @ [(idx, dict_get d k_id, c)]) new_list
               else dedupe_loop (Suc idx) rest (seen(c \<mapsto> dict_get d k_id)) removed
                      (new_list @ [(a, tok)])
           | _ \<Rightarrow> dedupe_loop (Suc idx) rest seen removed (new_list @ [(a, tok)]))
      | _ \<Rightarrow> dedupe_loop (Suc idx) rest seen removed (new_list @ [(a, tok)]))"

text \<open>
  The deduplication step: the list is replaced, and the removals are reported, only
  when something was removed.
\<close>

definition dedupe :: "obj list \<Rightarrow> report \<Rightarrow> obj list \<times> report \<times> (nat \<times> json \<times> ustr) list" where
  "dedupe toks r =
     (let (dedup_removed, new_list) = dedupe_loop 0 toks Map.empty [] []
      in if dedup_removed \<noteq> []
         then (new_list,
               r\<lparr>changes := changes r @ DedupHeader
                    # map (\<lambda>(idx, tid, c). DedupRemoved idx tid c) dedup_removed\<rparr>,
               dedup_removed)
         else (toks, r, dedup_removed))"

text \<open>
  \<open>id_by_obj\<close>, captured before the pass: object identity to the value of \<open>id\<close>, for the
  entries that are dicts.
\<close>

fun capture_ids :: "obj list \<Rightarrow> (nat \<times> json) list" where
  "capture_ids [] = []"
| "capture_ids ((a, tok) # rest) =
     (case tok of
        JObj d \<Rightarrow> (a, dict_get d k_id) # capture_ids rest
      | _ \<Rightarrow> capture_ids rest)"

text \<open>Step 4: the identifiers of the surviving entries against \<open>id_by_obj\<close>.\<close>

fun check_ids :: "(nat \<times> json) list \<Rightarrow> obj list \<Rightarrow> id_error list" where
  "check_ids id_by_obj [] = []"
| "check_ids id_by_obj ((a, tok) # rest) =
     (case tok of
        JObj d \<Rightarrow>
          (case map_of id_by_obj a of
             Some before_id \<Rightarrow>
               (if before_id \<noteq> dict_get d k_id
                then [IdChanged (dict_get d k_content) before_id (dict_get d k_id)]
                else [])
           | None \<Rightarrow> [])
          @ check_ids id_by_obj rest
      | _ \<Rightarrow> check_ids id_by_obj rest)"

text \<open>Step 2 for a mapping: every string value, in the order of the items.\<close>

fun process_special_dict :: "normalizer \<Rightarrow> pydict \<Rightarrow> report \<Rightarrow> pydict \<times> report" where
  "process_special_dict nfc [] r = ([], r)"
| "process_special_dict nfc ((k, v) # rest) r =
     (case v of
        JStr before_c \<Rightarrow>
          (let after_c = repair_content nfc before_c;
               after_c = (if k = k_bos_token \<or> k = k_eos_token
                        then (let (ok, canon) = looks_like_one_of_four_chat_markers after_c
                              in if ok then canon else after_c)
                        else after_c);
               r1 = (if after_c \<noteq> before_c
                     then r\<lparr>modified_count := modified_count r + 1,
                            changes := changes r @ [SpecialKeyChanged k before_c after_c]\<rparr>
                     else r);
               (rest', r2) = process_special_dict nfc rest r1
           in ((k, JStr after_c) # rest', r2))
      | _ \<Rightarrow>
          (let (rest', r2) = process_special_dict nfc rest r
           in ((k, v) # rest', r2)))"

text \<open>Step 2 for a list of entries.\<close>

fun process_special_list ::
  "normalizer \<Rightarrow> nat \<Rightarrow> json list \<Rightarrow> report \<Rightarrow> json list \<times> report" where
  "process_special_list nfc idx [] r = ([], r)"
| "process_special_list nfc idx (tok # rest) r =
     (let (tok', r1) =
            (case tok of
               JObj d \<Rightarrow>
                 (case map_of d k_content of
                    Some (JStr before_c) \<Rightarrow>
                      (let after_c = repair_content nfc before_c
                       in if after_c \<noteq> before_c
                          then (JObj (dict_set k_content (JStr after_c) d),
                                r\<lparr>modified_count := modified_count r + 1,
                                  changes := changes r
                                    @ [SpecialTokenChanged idx (dict_get d k_id) before_c after_c]\<rparr>)
                          else (tok, r))
                  | _ \<Rightarrow> (tok, r))
             | _ \<Rightarrow> (tok, r));
          (rest', r2) = process_special_list nfc (Suc idx) rest r1
      in (tok' # rest', r2))"

definition process_special_tokens :: "normalizer \<Rightarrow> json \<Rightarrow> report \<Rightarrow> json \<times> report" where
  "process_special_tokens nfc st r =
     (case st of
        JObj d \<Rightarrow> (let (d', r') = process_special_dict nfc d r in (JObj d', r'))
      | JArr xs \<Rightarrow> (let (xs', r') = process_special_list nfc 0 xs r in (JArr xs', r'))
      | _ \<Rightarrow> (st, r))"

section \<open>Document Validator\<close>

text \<open>Step 3, \<open>scan_for_remnants\<close>: one entry per zero-width character that is left.\<close>

definition scan_string :: "place \<Rightarrow> ustr \<Rightarrow> verror list" where
  "scan_string p c =
     (if has_mojibake_remnants c then [Remnants p c] else [])
     @ (if is_angle_bracketed c
        then map (\<lambda>ch. ZeroWidthLeft p c) (filter (\<lambda>ch. ch \<in> set ZERO_WIDTHS) c)
        else [])"

fun scan_added :: "nat \<Rightarrow> obj list \<Rightarrow> verror list" where
  "scan_added idx [] = []"
| "scan_added idx ((a, tok) # rest) =
     (case tok of
        JObj d \<Rightarrow>
          (case dict_get d k_content of
             JStr c \<Rightarrow> scan_string (InAdded idx (dict_get d k_id)) c
           | _ \<Rightarrow> [])
      | _ \<Rightarrow> [])
     @ scan_added (Suc idx) rest"

fun scan_special_dict :: "pydict \<Rightarrow> verror list" where
  "scan_special_dict [] = []"
| "scan_special_dict ((k, v) # rest) =
     (case v of JStr s \<Rightarrow> scan_string (InSpecialKey k) s | _ \<Rightarrow> [])
     @ scan_special_dict rest"

fun scan_special_list :: "nat \<Rightarrow> json list \<Rightarrow> verror list" where
  "scan_special_list idx [] = []"
| "scan_special_list idx (tok # rest) =
     (case tok of
        JObj d \<Rightarrow>
          (case dict_get d k_content of
             JStr c \<Rightarrow> scan_string (InSpecialList idx (dict_get d k_id)) c
           | _ \<Rightarrow> [])
      | _ \<Rightarrow> [])
     @ scan_special_list (Suc idx) rest"

definition scan_for_remnants :: "obj list option \<Rightarrow> json \<Rightarrow> verror list" where
  "scan_for_remnants added_tokens st =
     (case added_tokens of Some toks \<Rightarrow> scan_added 0 toks | None \<Rightarrow> [])
     @ (case st of
          JObj d \<Rightarrow> scan_special_dict d
        | JArr xs \<Rightarrow> scan_special_list 0 xs
        | _ \<Rightarrow> [])"

text \<open>Step 5, \<open>validate_bos_eos_value\<close>.\<close>

definition validate_bos_eos_value :: "ustr \<Rightarrow> ustr \<Rightarrow> verror list" where
  "validate_bos_eos_value name value =
     (if name = k_bos_token \<and> value \<noteq> CANON_BOS then [BosMismatch value] else [])
     @ (if name = k_eos_token \<and> value \<noteq> CANON_EOS then [EosMismatch value] else [])"

text \<open>
  \<open>key in st_map\<close> and \<open>st_map[key]\<close> on whatever the companion file parsed to;
  \<open>None\<close> stands for the \<open>TypeError\<close> that Python raises.
\<close>

fun py_contains :: "ustr \<Rightarrow> json \<Rightarrow> bool option" where
  "py_contains k (JObj d) = Some (map_of d k \<noteq> None)"
| "py_contains k (JArr xs) = Some (JStr k \<in> set xs)"
| "py_contains k (JStr s) = Some (py_in k s)"
| "py_contains k _ = None"

fun py_subscript :: "json \<Rightarrow> ustr \<Rightarrow> json option" where
  "py_subscript (JObj d) k = map_of d k"
| "py_subscript _ k = None"

text \<open>
  One round of the loop over \<open>("bos_token", "eos_token")\<close> on the companion map.  The
  state is the map, \<open>changes\<close> and \<open>errors\<close>; the flag tells that an exception left the
  loop.
\<close>

definition spmap_step ::
  "normalizer \<Rightarrow> ustr \<Rightarrow> json \<times> change list \<times> verror list
     \<Rightarrow> (json \<times> change list \<times> verror list) \<times> bool" where
  "spmap_step nfc key st =
     (case st of (st_map, chg, errs) \<Rightarrow>
        (case py_contains key st_map of
           None \<Rightarrow> (st, True)
         | Some False \<Rightarrow> (st, False)
         | Some True \<Rightarrow>
             (case py_subscript st_map key of
                None \<Rightarrow> (st, True)
              | Some (JStr orig_val) \<Rightarrow>
                  (let value = cleanup_marker_like_string nfc orig_val;
                       (ok, canon) = looks_like_one_of_four_chat_markers value;
                       value = (if ok then canon else value);
                       chg1 = (if value \<noteq> orig_val
                               then chg @ [SpmapChanged key orig_val value] else chg);
                       st_map1 = (if value \<noteq> orig_val
                                  then (case st_map of
                                          JObj d \<Rightarrow> JObj (dict_set key (JStr value) d)
                                        | _ \<Rightarrow> st_map)
                                  else st_map)
                   in ((st_map1, chg1, errs @ validate_bos_eos_value key value), False))
              | Some _ \<Rightarrow> (st, False))))"

definition spmap_loop ::
  "normalizer \<Rightarrow> json \<times> change list \<times> verror list
     \<Rightarrow> (json \<times> change list \<times> verror list) \<times> bool" where
  "spmap_loop nfc st =
     (case spmap_step nfc k_bos_token st of
        (st1, True) \<Rightarrow> (st1, True)
      | (st1, False) \<Rightarrow> spmap_step nfc k_eos_token st1)"

text \<open>Step 5 without a companion map: look for the two markers in the document.\<close>

definition found_in_list :: "ustr \<Rightarrow> json list \<Rightarrow> bool" where
  "found_in_list marker toks =
     list_ex (\<lambda>tok. case tok of JObj d \<Rightarrow> dict_get d k_content = JStr marker | _ \<Rightarrow> False) toks"

definition infer_bos_eos :: "normalizer \<Rightarrow> obj list option \<Rightarrow> json \<Rightarrow> verror list" where
  "infer_bos_eos nfc added_tokens st =
     (let errs_bos = (case st of
                        JObj d \<Rightarrow> (case dict_get d k_bos_token of
                                     JStr v \<Rightarrow> validate_bos_eos_value k_bos_token
                                                 (demojibake_and_normalize nfc v)
                                   | _ \<Rightarrow> [])
                      | _ \<Rightarrow> []);
          errs_eos = (case st of
                        JObj d \<Rightarrow> (case dict_get d k_eos_token of
                                     JStr v \<Rightarrow> validate_bos_eos_value k_eos_token
                                                 (demojibake_and_normalize nfc v)
                                   | _ \<Rightarrow> [])
                      | _ \<Rightarrow> []);
          found_bos = (case st of
                         JObj d \<Rightarrow> dict_get d k_bos_token = JStr CANON_BOS
                       | JArr xs \<Rightarrow> found_in_list CANON_BOS xs
                       | _ \<Rightarrow> False);
          found_eos = (case st of
                         JObj d \<Rightarrow> dict_get d k_eos_token = JStr CANON_EOS
                       | JArr xs \<Rightarrow> found_in_list CANON_EOS xs
                       | _ \<Rightarrow> False);
          fallback = (\<not> found_bos \<or> \<not> found_eos);
          found_bos = (found_bos \<or> (fallback \<and>
                         (case added_tokens of
                            Some toks \<Rightarrow> found_in_list CANON_BOS (map snd toks)
                          | None \<Rightarrow> False)));
          found_eos = (found_eos \<or> (fallback \<and>
                         (case added_tokens of
                            Some toks \<Rightarrow> found_in_list CANON_EOS (map snd toks)
                          | None \<Rightarrow> False)))
      in errs_bos @ errs_eos
         @ (if \<not> found_bos then [BosNotFound] else [])
         @ (if \<not> found_eos then [EosNotFound] else []))"

text \<open>Step 6.1: the flags of the entries of \<open>added_tokens\<close>.\<close>

definition check_flags_entry :: "nat \<Rightarrow> json \<Rightarrow> verror list" where
  "check_flags_entry idx tok =
     (case tok of
        JObj d \<Rightarrow>
          (case dict_get d k_content of
             JStr c \<Rightarrow>
               (if (c = CANON_BOS \<or> c = CANON_EOS)
                     \<and> \<not> py_truthy (case map_of d k_special of
                                      Some v \<Rightarrow> v | None \<Rightarrow> JBool False)
                then [NotSpecial idx (dict_get d k_id)] else [])
               @ (if (FULLWIDTH_BAR \<in> set c \<or> SPM_BLOCK \<in> set c)
                       \<and> \<not> py_in_false_tuple (dict_get d k_normalized)
                  then [NotUnnormalized idx (dict_get d k_id)] else [])
           | _ \<Rightarrow> [])
      | _ \<Rightarrow> [])"

fun check_flags :: "nat \<Rightarrow> obj list \<Rightarrow> verror list" where
  "check_flags idx [] = []"
| "check_flags idx ((a, tok) # rest) = check_flags_entry idx tok @ check_flags (Suc idx) rest"

text \<open>Step 7: the self-test on the four fixed samples.\<close>

definition self_test_samples :: "ustr list" where
  "self_test_samples =
     [asc ''<'' @ MOJI_BAR @ asc ''begin'' @ MOJI_BLOCK_LIT @ asc ''of'' @ MOJI_BLOCK_LIT
        @ asc ''sentence'' @ MOJI_BAR @ asc ''>'',
      asc ''<'' @ MOJI_BAR @ asc ''end'' @ MOJI_BLOCK_LIT @ asc ''of'' @ MOJI_BLOCK_LIT
        @ asc ''sentence'' @ MOJI_BAR @ asc ''>'',
      asc ''<'' @ MOJI_BAR @ asc ''User'' @ MOJI_BAR @ asc ''>'',
      asc ''<'' @ MOJI_BAR @ asc ''Assistant'' @ MOJI_BAR @ asc ''>'']"

definition self_test_expected :: "ustr list" where
  "self_test_expected = [CANON_BOS, CANON_EOS, CANON_USER, CANON_ASSISTANT]"

definition self_test_case :: "normalizer \<Rightarrow> ustr \<times> ustr \<Rightarrow> bool" where
  "self_test_case nfc p =
     (case p of (s, exp) \<Rightarrow>
        (let out = demojibake_and_normalize nfc s;
             (ok, canon) = looks_like_one_of_four_chat_markers out
         in ok \<and> canon = exp))"

definition self_test :: "normalizer \<Rightarrow> verror list" where
  "self_test nfc =
     (if list_all (self_test_case nfc) (zip self_test_samples self_test_expected)
      then [] else [SelfTestFailed])"

section \<open>The run\<close>

text \<open>
  A file beside the primary document is absent, holds text that is not JSON, or holds
  a JSON value.  Files that exist are taken to be readable UTF-8, and writes to
  succeed.
\<close>

datatype jfile = Absent | Malformed | Holds json

datatype path =
    TokenizerOut
  | TokenizerBak
  | SpmapFile
  | SpmapBak
  | TcfgFile
  | TcfgBak

text \<open>
  The inputs of a run.  The vocabulary check (6.2) and the regex check (6.3) read the
  document and \<open>vocab.json\<close> and, for a vocabulary that is a JSON object, only append
  to \<open>errors\<close>; their entries are the input \<open>more_errors\<close>.
\<close>

record env =
  dry :: bool
  tokenizer_json :: jfile
  spmap_json :: jfile
  tcfg_json :: jfile
  more_errors :: "verror list"

text \<open>
  How a run ends.  \<open>Uncaught\<close> is the traceback of \<open>tokenizer.get\<close> on a document that
  is not a JSON object.
\<close>

datatype outcome =
    SelfTestOnly "verror list"
  | InputNotFound
  | ParseFailed
  | Uncaught
  | IdsChanged "id_error list"
  | ValidationFailed "verror list"
  | DryRunDone
  | Written

fun exit_code :: "outcome \<Rightarrow> int" where
  "exit_code (SelfTestOnly errs) = (if errs \<noteq> [] then 1 else 0)"
| "exit_code InputNotFound = 2"
| "exit_code ParseFailed = 2"
| "exit_code Uncaught = 1"
| "exit_code (IdsChanged es) = 1"
| "exit_code (ValidationFailed errs) = 1"
| "exit_code DryRunDone = 0"
| "exit_code Written = 0"

record run =
  outcome :: outcome
  writes :: "(path \<times> jfile) list"
  rep :: report
  document :: json

text \<open>What the pass has computed when step 4 is reached.\<close>

record pass =
  p_doc :: pydict
  p_added :: "obj list option"
  p_st :: json
  p_rep :: report

text \<open>Steps 1 and 2 on the parsed document.\<close>

definition repair_pass :: "normalizer \<Rightarrow> pydict \<Rightarrow> pass \<times> (nat \<times> json) list" where
  "repair_pass nfc doc =
     (let r0 = \<lparr>modified_count = 0, changes = []\<rparr>;
          loaded = (case dict_get doc k_added_tokens of
                      JArr xs \<Rightarrow> Some (load_objs xs)
                    | _ \<Rightarrow> None);
          id_by_obj = (case loaded of Some toks \<Rightarrow> capture_ids toks | None \<Rightarrow> []);
          (added, r1) =
            (case loaded of
               Some toks \<Rightarrow>
                 (let (toks1, ra) = process_added_tokens nfc 0 toks r0;
                      (toks2, rb, removed) = dedupe toks1 ra
                  in (Some toks2, rb))
             | None \<Rightarrow> (None, r0));
          doc1 = (case added of
                    Some toks \<Rightarrow> dict_set k_added_tokens (JArr (map snd toks)) doc
                  | None \<Rightarrow> doc);
          (st, r2) = process_special_tokens nfc (dict_get doc k_special_tokens) r1;
          doc2 = (case st of
                    JObj d \<Rightarrow> dict_set k_special_tokens st doc1
                  | JArr xs \<Rightarrow> dict_set k_special_tokens st doc1
                  | _ \<Rightarrow> doc1)
      in (\<lparr>p_doc = doc2, p_added = added, p_st = st, p_rep = r2\<rparr>, id_by_obj))"

text \<open>Step 5 with the companion map, including its write-back.\<close>

definition spmap_stage ::
  "normalizer \<Rightarrow> bool \<Rightarrow> jfile \<Rightarrow> pass
     \<Rightarrow> change list \<times> verror list \<times> (path \<times> jfile) list" where
  "spmap_stage nfc is_dry f p =
     (case f of
        Absent \<Rightarrow> (changes (p_rep p), infer_bos_eos nfc (p_added p) (p_st p), [])
      | Malformed \<Rightarrow> (changes (p_rep p), [SpmapFailed], [])
      | Holds st_map \<Rightarrow>
          (case spmap_loop nfc (st_map, changes (p_rep p), []) of
             ((st_map1, chg, errs), True) \<Rightarrow> (chg, errs @ [SpmapFailed], [])
           | ((st_map1, chg, errs), False) \<Rightarrow>
               (chg, errs,
                if \<not> is_dry then [(SpmapBak, f), (SpmapFile, Holds st_map1)] else [])))"

text \<open>The template of \<open>tokenizer_config.json\<close>, including its write-back.\<close>

definition tcfg_stage ::
  "normalizer \<Rightarrow> bool \<Rightarrow> jfile \<Rightarrow> change list \<times> verror list \<times> (path \<times> jfile) list" where
  "tcfg_stage nfc is_dry f =
     (case f of
        Absent \<Rightarrow> ([], [], [])
      | Malformed \<Rightarrow> ([], [TcfgFailed], [])
      | Holds cfg \<Rightarrow>
          (case cfg of
             JObj d \<Rightarrow>
               (case dict_get d k_chat_template of
                  JStr before_tpl \<Rightarrow>
                    (let after_tpl = fix_markers_in_text nfc before_tpl
                     in if after_tpl \<noteq> before_tpl
                        then ([TemplateUpdated], [],
                              if \<not> is_dry
                              then [(TcfgBak, f),
                                    (TcfgFile, Holds (JObj (dict_set k_chat_template
                                                              (JStr after_tpl) d)))]
                              else [])
                        else ([], [], []))
                | _ \<Rightarrow> ([], [], []))
           | _ \<Rightarrow> ([], [], [])))"

text \<open>
  The run from step 4 on, for the identifier errors found there: they end the run at
  once; otherwise steps 5 to 7 collect \<open>errors\<close>, the companion files are handled, and
  the primary document is written if \<open>errors\<close> is empty and the run is not dry.
\<close>

definition finish_run :: "normalizer \<Rightarrow> env \<Rightarrow> pass \<Rightarrow> id_error list \<Rightarrow> run" where
  "finish_run nfc e p id_errors =
     (if id_errors \<noteq> []
      then \<lparr>outcome = IdsChanged id_errors, writes = [], rep = p_rep p,
            document = JObj (p_doc p)\<rparr>
      else
        (let (chg5, errs5, writes5) = spmap_stage nfc (dry e) (spmap_json e) p;
             errs6 = errs5 @ scan_for_remnants (p_added p) (p_st p);
             errs61 = errs6 @ (case p_added p of Some toks \<Rightarrow> check_flags 0 toks
                                | None \<Rightarrow> []);
             errs63 = errs61 @ more_errors e;
             errs7 = errs63 @ (if dry e then self_test nfc else []);
             (chg_t, errs_t, writes_t) = tcfg_stage nfc (dry e) (tcfg_json e);
             errors = errs7 @ errs_t;
             r = (p_rep p)\<lparr>changes := chg5 @ chg_t\<rparr>;
             doc = JObj (p_doc p)
         in if errors \<noteq> []
            then \<lparr>outcome = ValidationFailed errors, writes = writes5 @ writes_t,
                  rep = r, document = doc\<rparr>
            else if dry e
            then \<lparr>outcome = DryRunDone, writes = writes5 @ writes_t,
                  rep = r, document = doc\<rparr>
            else \<lparr>outcome = Written,
                  writes = writes5 @ writes_t
                    @ [(TokenizerBak, tokenizer_json e), (TokenizerOut, Holds doc)],
                  rep = r, document = doc\<rparr>))"

definition main :: "normalizer \<Rightarrow> env \<Rightarrow> run" where
  "main nfc e =
     (let r0 = \<lparr>modified_count = 0, changes = []\<rparr>
      in case tokenizer_json e of
           Absent \<Rightarrow>
             (if dry e
              then \<lparr>outcome = SelfTestOnly (self_test nfc), writes = [], rep = r0,
                    document = JNull\<rparr>
              else \<lparr>outcome = InputNotFound, writes = [], rep = r0, document = JNull\<rparr>)
         | Malformed \<Rightarrow> \<lparr>outcome = ParseFailed, writes = [], rep = r0, document = JNull\<rparr>
         | Holds tokenizer \<Rightarrow>
             (case tokenizer of
                JObj doc \<Rightarrow>
                  (let (p, id_by_obj) = repair_pass nfc doc;
                       id_errors = (case p_added p of
                                      Some toks \<Rightarrow> check_ids id_by_obj toks
                                    | None \<Rightarrow> [])
                   in finish_run nfc e p id_errors)
              | _ \<Rightarrow> \<lparr>outcome = Uncaught, writes = [], rep = r0,
                       document = tokenizer\<rparr>))"

section \<open>Notions used to state the properties\<close>

text \<open>
  A plain code point is ASCII or one of the two marker characters.  None of them has a
  canonical decomposition or combines with a neighbour, so NFC leaves every string of
  plain code points as it is; \<open>nfc_fixes_plain\<close> is that fact as a condition on the
  parameter \<open>nfc\<close>.
\<close>

definition plain_cp :: "nat \<Rightarrow> bool" where
  "plain_cp c \<longleftrightarrow> c < 0x80 \<or> c = FULLWIDTH_BAR \<or> c = SPM_BLOCK"

definition nfc_fixes_plain :: "normalizer \<Rightarrow> bool" where
  "nfc_fixes_plain nfc \<longleftrightarrow> (\<forall>s. list_all plain_cp s \<longrightarrow> nfc s = s)"


definition target_count :: "ustr \<Rightarrow> nat" where
  "target_count t = length (filter (\<lambda>ch. ch = FULLWIDTH_BAR \<or> ch = SPM_BLOCK) t)"

text \<open>
  \<open>better a b\<close>: \<open>a\<close> comes strictly before \<open>b\<close> in the order of the specification,
  fewer residual corruptions first, then more target characters.
\<close>

definition better :: "ustr \<Rightarrow> ustr \<Rightarrow> bool" where
  "better a b \<longleftrightarrow>
     fst (score a) < fst (score b)
     \<or> (fst (score a) = fst (score b) \<and> target_count b < target_count a)"

text \<open>The payloads of the four markers, and the substitution of the ASCII bar.\<close>

definition marker_payloads :: "ustr list" where
  "marker_payloads =
     [[FULLWIDTH_BAR] @ asc ''begin'' @ [SPM_BLOCK] @ asc ''of'' @ [SPM_BLOCK]
        @ asc ''sentence'' @ [FULLWIDTH_BAR],
      [FULLWIDTH_BAR] @ asc ''end'' @ [SPM_BLOCK] @ asc ''of'' @ [SPM_BLOCK]
        @ asc ''sentence'' @ [FULLWIDTH_BAR],
      [FULLWIDTH_BAR] @ asc ''User'' @ [FULLWIDTH_BAR],
      [FULLWIDTH_BAR] @ asc ''Assistant'' @ [FULLWIDTH_BAR]]"

definition bar_subst :: "ustr \<Rightarrow> ustr" where
  "bar_subst inner = map (\<lambda>c. if c = 0x7C then FULLWIDTH_BAR else c) inner"

text \<open>
  The string content and the identifier of an entry, and the entries that repeat the
  content of an earlier one.
\<close>

definition content_of :: "json \<Rightarrow> ustr option" where
  "content_of tok =
     (case tok of
        JObj d \<Rightarrow> (case dict_get d k_content of JStr c \<Rightarrow> Some c | _ \<Rightarrow> None)
      | _ \<Rightarrow> None)"

definition is_dict :: "json \<Rightarrow> bool" where
  "is_dict tok = (case tok of JObj d \<Rightarrow> True | _ \<Rightarrow> False)"

definition id_of :: "json \<Rightarrow> json" where
  "id_of tok = (case tok of JObj d \<Rightarrow> dict_get d k_id | _ \<Rightarrow> JNull)"

definition repeats :: "obj list \<Rightarrow> nat \<Rightarrow> bool" where
  "repeats toks i \<longleftrightarrow>
     content_of (snd (toks ! i)) \<noteq> None
     \<and> (\<exists>j<i. content_of (snd (toks ! j)) = content_of (snd (toks ! i)))"

definition removal_record :: "obj list \<Rightarrow> nat \<Rightarrow> nat \<times> json \<times> ustr" where
  "removal_record toks i =
     (i, id_of (snd (toks ! i)),
      case content_of (snd (toks ! i)) of Some c \<Rightarrow> c | None \<Rightarrow> [])"

text \<open>The errors a run reports, whichever way it ends.\<close>

definition reported :: "run \<Rightarrow> verror list" where
  "reported r =
     (case outcome r of
        ValidationFailed errs \<Rightarrow> errs
      | SelfTestOnly errs \<Rightarrow> errs
      | _ \<Rightarrow> [])"

text \<open>
  The four markers written with a given form of the bar and of the block: the canonical
  characters give the canonical markers, the forms \<open>MOJI_BAR\<close> and \<open>MOJI_BLOCK_LIT\<close> (the
  UTF-8 bytes read as Windows-1252) give the self-test samples, and the UTF-8 bytes read
  as Latin-1 give the other byte-reinterpretation.
\<close>

definition marker_texts :: "ustr \<Rightarrow> ustr \<Rightarrow> ustr list" where
  "marker_texts bar blk =
     [asc ''<'' @ bar @ asc ''begin'' @ blk @ asc ''of'' @ blk @ asc ''sentence'' @ bar
        @ asc ''>'',
      asc ''<'' @ bar @ asc ''end'' @ blk @ asc ''of'' @ blk @ asc ''sentence'' @ bar
        @ asc ''>'',
      asc ''<'' @ bar @ asc ''User'' @ bar @ asc ''>'',
      asc ''<'' @ bar @ asc ''Assistant'' @ bar @ asc ''>'']"

definition LATIN1_BAR :: ustr where
  "LATIN1_BAR = [0xEF, 0xBD, 0x9C]"

definition LATIN1_BLOCK :: ustr where
  "LATIN1_BLOCK = [0xE2, 0x96, 0x81]"

section \<open>Facts about the string methods\<close>

lemma py_in_drop: "py_in q (drop k t) \<Longrightarrow> py_in q t"
proof (induction t arbitrary: k)
  case Nil
  then show ?case by simp
next
  case (Cons c cs)
  show ?case
  proof (cases k)
    case 0
    with Cons.prems show ?thesis by simp
  next
    case (Suc j)
    with Cons.prems have "py_in q (drop j cs)" by simp
    then have "py_in q cs" by (rule Cons.IH)
    then show ?thesis by simp
  qed
qed

lemma prefix_py_replace:
  "old \<noteq> [] \<Longrightarrow> x \<notin> set q \<Longrightarrow> prefix q (py_replace old [x] t) \<Longrightarrow> prefix q t"
proof (induction t arbitrary: q)
  case Nil
  then show ?case by simp
next
  case (Cons c cs)
  show ?case
  proof (cases q)
    case Nil
    then show ?thesis by simp
  next
    case (Cons a q')
    show ?thesis
    proof (cases "prefix old (c # cs)")
      case True
      with Cons.prems(1,3) \<open>q = a # q'\<close> have "a = x" by simp
      with Cons.prems(2) \<open>q = a # q'\<close> show ?thesis by simp
    next
      case False
      with Cons.prems(1,3) \<open>q = a # q'\<close>
      have "a = c" and "prefix q' (py_replace old [x] cs)" by simp_all
      moreover from Cons.prems(2) \<open>q = a # q'\<close> have "x \<notin> set q'" by simp
      ultimately have "prefix q' cs" using Cons.IH Cons.prems(1) by blast
      with \<open>a = c\<close> \<open>q = a # q'\<close> show ?thesis by simp
    qed
  qed
qed

lemma py_in_py_replace_aux:
  "old \<noteq> [] \<Longrightarrow> new = [x] \<Longrightarrow> x \<notin> set q \<Longrightarrow> py_in q (py_replace old new t) \<Longrightarrow> py_in q t"
proof (induction old new t rule: py_replace.induct)
  case (1 old new)
  then show ?case by simp
next
  case (2 old new c cs)
  note one = \<open>old \<noteq> []\<close> and new = \<open>new = [x]\<close> and xq = \<open>x \<notin> set q\<close>
  show ?case
  proof (cases "q = []")
    case True
    then show ?thesis by simp
  next
    case qne: False
    show ?thesis
    proof (cases "prefix old (c # cs)")
      case True
      with "2.prems" have *: "py_in q (x # py_replace old new (drop (length old) (c # cs)))"
        by simp
      from qne xq have "\<not> prefix q (x # py_replace old new (drop (length old) (c # cs)))"
        by (cases q) auto
      with * have "py_in q (py_replace old new (drop (length old) (c # cs)))" by simp
      then have "py_in q (drop (length old) (c # cs))"
        using "2.IH"(2)[OF one True one new xq] by blast
      then show ?thesis by (rule py_in_drop)
    next
      case False
      with "2.prems" have *: "py_in q (c # py_replace old new cs)" by simp
      then consider (pre) "prefix q (c # py_replace old new cs)"
        | (later) "py_in q (py_replace old new cs)"
        by auto
      then show ?thesis
      proof cases
        case pre
        have "c # py_replace old new cs = py_replace old [x] (c # cs)"
          using False one new by simp
        with pre have "prefix q (c # cs)"
          using prefix_py_replace[OF one xq, of "c # cs"] by simp
        then show ?thesis by simp
      next
        case later
        then have "py_in q cs"
          using "2.IH"(3)[OF one False one new xq] by blast
        then show ?thesis by simp
      qed
    qed
  qed
qed

lemma py_in_py_replace:
  "old \<noteq> [] \<Longrightarrow> x \<notin> set q \<Longrightarrow> py_in q (py_replace old [x] t) \<Longrightarrow> py_in q t"
  by (rule py_in_py_replace_aux[where new = "[x]"]) simp_all

lemma py_replace_removes_aux:
  "old \<noteq> [] \<Longrightarrow> new = [x] \<Longrightarrow> x \<notin> set old \<Longrightarrow> \<not> py_in old (py_replace old new t)"
proof (induction old new t rule: py_replace.induct)
  case (1 old new)
  then show ?case by simp
next
  case (2 old new c cs)
  note one = \<open>old \<noteq> []\<close> and new = \<open>new = [x]\<close> and xo = \<open>x \<notin> set old\<close>
  show ?case
  proof (cases "prefix old (c # cs)")
    case True
    have ih: "\<not> py_in old (py_replace old new (drop (length old) (c # cs)))"
      using "2.IH"(2)[OF one True one new xo] .
    from one xo have "\<not> prefix old (x # py_replace old new (drop (length old) (c # cs)))"
      by (cases old) auto
    with ih True one new show ?thesis by simp
  next
    case False
    have ih: "\<not> py_in old (py_replace old new cs)"
      using "2.IH"(3)[OF one False one new xo] .
    have "\<not> prefix old (c # py_replace old new cs)"
    proof
      assume "prefix old (c # py_replace old new cs)"
      then have "prefix old (py_replace old [x] (c # cs))"
        using False one new by simp
      then have "prefix old (c # cs)"
        by (rule prefix_py_replace[OF one xo])
      with False show False by simp
    qed
    with ih False one show ?thesis by simp
  qed
qed

lemma py_replace_removes:
  "old \<noteq> [] \<Longrightarrow> x \<notin> set old \<Longrightarrow> \<not> py_in old (py_replace old [x] t)"
  by (rule py_replace_removes_aux[where new = "[x]"]) simp_all

lemma py_replace_absent:
  "old \<noteq> [] \<Longrightarrow> \<not> py_in old t \<Longrightarrow> py_replace old new t = t"
  by (induction old new t rule: py_replace.induct) auto


lemma py_replace_set:
  "old \<noteq> [] \<Longrightarrow> set (py_replace old new t) \<subseteq> set t \<union> set new"
proof (induction old new t rule: py_replace.induct)
  case (1 old new)
  then show ?case by simp
next
  case (2 old new c cs)
  show ?case
  proof (cases "prefix old (c # cs)")
    case True
    have "set (py_replace old new (drop (length old) (c # cs)))
            \<subseteq> set (drop (length old) (c # cs)) \<union> set new"
      using "2.IH"(2)[OF "2.prems" True "2.prems"] .
    moreover have "set (drop (length old) (c # cs)) \<subseteq> set (c # cs)"
      by (rule set_drop_subset)
    ultimately show ?thesis using True "2.prems" by auto
  next
    case False
    have "set (py_replace old new cs) \<subseteq> set cs \<union> set new"
      using "2.IH"(3)[OF "2.prems" False "2.prems"] .
    then show ?thesis using False "2.prems" by auto
  qed
qed


lemma py_in_hd_absent: "pat \<noteq> [] \<Longrightarrow> hd pat \<notin> set t \<Longrightarrow> \<not> py_in pat t"
  by (cases pat; induction t) auto

lemma drop_within: "n \<le> length u \<Longrightarrow> drop n (u @ v) = drop n u @ v"
  by simp

lemma py_replace_hd: "old \<noteq> [] \<Longrightarrow> hd old \<noteq> c \<Longrightarrow> py_replace old new (c # cs) = c # py_replace old new cs"
  by (cases old) auto

lemma prefix_snoc_notin: "x \<notin> set old \<Longrightarrow> prefix old (u @ [x]) \<longleftrightarrow> prefix old u"
  by auto

lemma py_replace_snoc:
  "old \<noteq> [] \<Longrightarrow> x \<notin> set old \<Longrightarrow> py_replace old new (u @ [x]) = py_replace old new u @ [x]"
proof (induction old new u rule: py_replace.induct)
  case (1 old new)
  then have "\<not> prefix old [x]" by (cases old) auto
  with 1 show ?case by simp
next
  case (2 old new c cs)
  note one = \<open>old \<noteq> []\<close> and xo = \<open>x \<notin> set old\<close>
  have pre: "prefix old (c # cs @ [x]) \<longleftrightarrow> prefix old (c # cs)"
    using prefix_snoc_notin[OF xo, of "c # cs"] by simp
  show ?case
  proof (cases "prefix old (c # cs)")
    case True
    then have "length old \<le> length (c # cs)" by (rule prefix_length_le)
    then have "drop (length old) (c # cs @ [x]) = drop (length old) (c # cs) @ [x]"
      using drop_within[of "length old" "c # cs" "[x]"] by simp
    moreover have "py_replace old new (drop (length old) (c # cs) @ [x])
                     = py_replace old new (drop (length old) (c # cs)) @ [x]"
      using "2.IH"(2)[OF one True one xo] .
    ultimately show ?thesis using True pre one by simp
  next
    case False
    have "py_replace old new (cs @ [x]) = py_replace old new cs @ [x]"
      using "2.IH"(3)[OF one False one xo] .
    then show ?thesis using False pre one by simp
  qed
qed

section \<open>Strings of plain code points\<close>

lemma decode_ascii: "\<forall>b\<in>set bs. b < 0x80 \<Longrightarrow> decode_utf8_ignore bs = bs"
  by (induction bs) auto

lemma plain_cases: "plain_cp c \<Longrightarrow> c < 0x80 \<or> c = 0xFF5C \<or> c = 0x2581"
  by (simp add: plain_cp_def FULLWIDTH_BAR_def SPM_BLOCK_def)

lemma latin1_plain:
  "list_all plain_cp s \<Longrightarrow> encode_latin1_ignore s = filter (\<lambda>c. c < 0x80) s"
  by (induction s) (auto simp: encode_latin1_ignore_def dest!: plain_cases)

lemma cp1252_byte_plain: "plain_cp c \<Longrightarrow> cp1252_byte c = (if c < 0x80 then Some c else None)"
  by (auto simp: cp1252_byte_def cp1252_specials_def dest!: plain_cases)

lemma cp1252_plain:
  "list_all plain_cp s \<Longrightarrow> encode_cp1252_ignore s = filter (\<lambda>c. c < 0x80) s"
  by (induction s)
     (auto simp: encode_cp1252_ignore_def List.map_filter_simps cp1252_byte_plain)

lemma plain_no_remnants:
  assumes "list_all plain_cp s"
  shows "\<not> py_in MOJI_BAR s" and "\<not> py_in MOJI_BLOCK_ESC s" and "\<not> py_in MOJI_BLOCK_LIT s"
proof -
  have "0xEF \<notin> set s" and "0xE2 \<notin> set s"
    using assms by (auto simp: list_all_iff dest!: plain_cases)
  then show "\<not> py_in MOJI_BAR s" and "\<not> py_in MOJI_BLOCK_ESC s"
    and "\<not> py_in MOJI_BLOCK_LIT s"
    unfolding MOJI_BAR_def MOJI_BLOCK_ESC_def MOJI_BLOCK_LIT_def
    by (simp_all add: py_in_hd_absent)
qed

lemma direct_plain: "list_all plain_cp s \<Longrightarrow> direct s = s"
  using plain_no_remnants[of s]
  by (simp add: direct_def py_replace_absent MOJI_BAR_def MOJI_BLOCK_ESC_def
        MOJI_BLOCK_LIT_def)

lemma score_plain:
  "list_all plain_cp s \<Longrightarrow> score s = (0, - int (target_count s))"
proof -
  assume p: "list_all plain_cp s"
  have "py_count FULLWIDTH_BAR s + py_count SPM_BLOCK s = target_count s"
    by (induction s) (auto simp: py_count_def target_count_def FULLWIDTH_BAR_def SPM_BLOCK_def)
  then show ?thesis using plain_no_remnants[OF p] by (simp add: score_def)
qed

lemma ascii_part_plain: "list_all plain_cp (filter (\<lambda>c. c < 0x80) s)"
  by (induction s) (auto simp: plain_cp_def)

lemma target_count_ascii: "target_count (filter (\<lambda>c. c < 0x80) s) = 0"
  by (induction s) (auto simp: target_count_def FULLWIDTH_BAR_def SPM_BLOCK_def)

lemma no_targets_ascii:
  "list_all plain_cp s \<Longrightarrow> target_count s = 0 \<Longrightarrow> filter (\<lambda>c. c < 0x80) s = s"
  by (induction s) (auto simp: target_count_def plain_cp_def split: if_splits)

lemma best_candidate_plain:
  assumes "list_all plain_cp s"
  shows "best_candidate (latin1_attempt s) (cp1252_attempt s) s = s"
proof -
  let ?a = "filter (\<lambda>c. c < 0x80) s"
  have dec: "decode_utf8_ignore ?a = ?a" by (rule decode_ascii) simp
  have l: "latin1_attempt s = Some ?a"
    by (simp add: latin1_attempt_def latin1_plain[OF assms] dec)
  have c: "cp1252_attempt s = Some ?a"
    by (simp add: cp1252_attempt_def cp1252_plain[OF assms] dec)
  have sa: "score ?a = (0, 0)"
    using score_plain[OF ascii_part_plain, of s] by (simp add: target_count_ascii)
  have ss: "score s = (0, - int (target_count s))" by (rule score_plain[OF assms])
  show ?thesis
  proof (cases "target_count s = 0")
    case True
    then have "?a = s" by (rule no_targets_ascii[OF assms])
    then show ?thesis
      by (simp add: best_candidate_def l c first_candidate_def later_candidates_def
            direct_plain[OF assms])
  next
    case False
    then show ?thesis
      by (simp add: best_candidate_def l c first_candidate_def later_candidates_def
            direct_plain[OF assms] sa ss)
  qed
qed

lemma demojibake_plain:
  "nfc_fixes_plain nfc \<Longrightarrow> list_all plain_cp s \<Longrightarrow> demojibake_and_normalize nfc s = s"
  by (simp add: demojibake_and_normalize_def best_candidate_plain nfc_fixes_plain_def)

lemma strip_zero_plain: "list_all plain_cp s \<Longrightarrow> strip_zero_width_and_variation s = s"
  by (induction s)
     (auto simp: strip_zero_width_and_variation_def ZERO_WIDTHS_def dest!: plain_cases)

lemma normalize_char_plain: "plain_cp c \<Longrightarrow> normalize_char c = c"
  by (auto simp: normalize_char_def SPACE_VARIANTS_def CURLY_TO_ASCII_def
        DASHES_TO_ASCII_HYPHEN_def dest!: plain_cases)

lemma normalize_plain: "list_all plain_cp s \<Longrightarrow> normalize_space_dash_quotes_inside s = s"
  by (induction s) (auto simp: normalize_space_dash_quotes_inside_def normalize_char_plain)

lemma angle_iff: "is_angle_bracketed s \<longleftrightarrow> (\<exists>u. s = 0x3C # u @ [0x3E])"
proof
  assume a: "is_angle_bracketed s"
  then have "prefix [0x3C] s" and "suffix [0x3E] s" and "2 \<le> length s"
    by (simp_all add: is_angle_bracketed_def py_startswith_def py_endswith_def asc_def)
  then obtain v where v: "s = 0x3C # v" by (auto simp: prefix_def)
  with \<open>2 \<le> length s\<close> have "v \<noteq> []" by auto
  from \<open>suffix [0x3E] s\<close> v \<open>v \<noteq> []\<close> have "suffix [0x3E] v"
    by (auto simp: suffix_def Cons_eq_append_conv)
  then obtain u where "v = u @ [0x3E]" by (auto simp: suffix_def)
  with v show "\<exists>u. s = 0x3C # u @ [0x3E]" by auto
next
  assume "\<exists>u. s = 0x3C # u @ [0x3E]"
  then show "is_angle_bracketed s"
    by (auto simp: is_angle_bracketed_def py_startswith_def py_endswith_def asc_def suffix_def)
qed

lemma standardize_angle:
  "standardize_line_endings (0x3C # u @ [0x3E]) = 0x3C # standardize_line_endings u @ [0x3E]"
  by (simp add: standardize_line_endings_def py_replace_hd py_replace_snoc)


lemma standardize_fixed: "0x0D \<notin> set s \<Longrightarrow> standardize_line_endings s = s"
  by (simp add: standardize_line_endings_def py_replace_absent py_in_hd_absent)

lemma standardize_plain:
  "list_all plain_cp s \<Longrightarrow> list_all plain_cp (standardize_line_endings s)"
proof -
  assume p: "list_all plain_cp s"
  have "set (standardize_line_endings s) \<subseteq> set s \<union> {0x0A}"
    unfolding standardize_line_endings_def
    using py_replace_set[of "[0x0D]" "[0x0A]" "py_replace [0x0D, 0x0A] [0x0A] s"]
      py_replace_set[of "[0x0D, 0x0A]" "[0x0A]" s]
    by auto
  moreover have "plain_cp 0x0A" by (simp add: plain_cp_def)
  ultimately show ?thesis using p by (auto simp: list_all_iff)
qed

lemma strip_angle: "py_strip (0x3C # u @ [0x3E]) = 0x3C # u @ [0x3E]"
  by (simp add: py_strip_def py_isspace_def)


section \<open>The four canonical markers\<close>

lemmas consts_defs =
  asc_def FULLWIDTH_BAR_def SPM_BLOCK_def CANON_BOS_def CANON_EOS_def CANON_USER_def
  CANON_ASSISTANT_def MOJI_BAR_def MOJI_BLOCK_ESC_def MOJI_BLOCK_LIT_def
  LATIN1_BAR_def LATIN1_BLOCK_def

lemmas repair_defs =
  best_candidate_def first_candidate_def later_candidates_def latin1_attempt_def
  cp1252_attempt_def encode_latin1_ignore_def encode_cp1252_ignore_def
  List.map_filter_simps cp1252_byte_def cp1252_specials_def direct_def score_def
  py_count_def is_cont_def

lemma bar_replace: "py_replace (asc ''|'') [FULLWIDTH_BAR] s = bar_subst s"
  by (induction s) (auto simp: asc_def bar_subst_def)

lemma marker_table_lookup:
  "map_of marker_table p
     = (if p \<in> set marker_payloads then Some (0x3C # p @ [0x3E]) else None)"
  by (simp add: marker_table_def marker_payloads_def consts_defs)

lemma canonical_of_payloads:
  "map (\<lambda>p. 0x3C # p @ [0x3E]) marker_payloads = self_test_expected"
  by (simp add: marker_payloads_def self_test_expected_def consts_defs)

lemma payload_nonempty: "p \<in> set marker_payloads \<Longrightarrow> p \<noteq> []"
  by (auto simp: marker_payloads_def)

lemma looks_like_shape:
  "looks_like_one_of_four_chat_markers (0x3C # inner @ [0x3E])
     = (if bar_subst inner \<in> set marker_payloads
        then (True, 0x3C # bar_subst inner @ [0x3E])
        else (False, 0x3C # inner @ [0x3E]))"
proof (cases "inner = []")
  case True
  have "[] \<notin> set marker_payloads" using payload_nonempty by blast
  with True show ?thesis
    by (simp add: looks_like_one_of_four_chat_markers_def bar_subst_def)
next
  case False
  then have len: "\<not> length (0x3C # inner @ [0x3E]) < 3" by (cases inner) auto
  have shape: "py_startswith (0x3C # inner @ [0x3E]) (asc ''<'')"
    "py_endswith (0x3C # inner @ [0x3E]) (asc ''>'')"
    by (simp_all add: py_startswith_def py_endswith_def asc_def suffix_def)
  have inner: "butlast (tl (0x3C # inner @ [0x3E])) = inner" by simp
  show ?thesis
    unfolding looks_like_one_of_four_chat_markers_def
    using len shape
    by (simp only: inner if_False if_True simp_thms Let_def bar_replace marker_table_lookup
          length_Cons length_append list.size)
       (simp split: option.splits)
qed

lemma looks_like_other:
  "\<not> is_angle_bracketed s \<Longrightarrow> looks_like_one_of_four_chat_markers s = (False, s)"
  by (auto simp: looks_like_one_of_four_chat_markers_def is_angle_bracketed_def)




lemma payload_no_cr: "p \<in> set marker_payloads \<Longrightarrow> 0x0D \<notin> set p"
  by (auto simp: marker_payloads_def consts_defs)


lemma payload_fixed: "p \<in> set marker_payloads \<Longrightarrow> bar_subst p = p"
  by (auto simp: marker_payloads_def consts_defs bar_subst_def)

section \<open>Cleaning a plain marker-like string\<close>

lemma cleanup_plain_angle:
  assumes nfc: "nfc_fixes_plain nfc" and plain: "list_all plain_cp (0x3C # u @ [0x3E])"
  shows "cleanup_marker_like_string nfc (0x3C # u @ [0x3E])
           = (if bar_subst (standardize_line_endings u) \<in> set marker_payloads
              then 0x3C # bar_subst (standardize_line_endings u) @ [0x3E]
              else 0x3C # standardize_line_endings u @ [0x3E])"
proof -
  let ?s = "0x3C # u @ [0x3E]"
  let ?t = "0x3C # standardize_line_endings u @ [0x3E]"
  have 1: "demojibake_and_normalize nfc ?s = ?s" by (rule demojibake_plain[OF nfc plain])
  have 2: "strip_zero_width_and_variation ?s = ?s" by (rule strip_zero_plain[OF plain])
  have 3: "standardize_line_endings ?s = ?t" by (rule standardize_angle)
  have "list_all plain_cp (standardize_line_endings ?s)" by (rule standardize_plain[OF plain])
  then have 4: "list_all plain_cp ?t" by (simp only: 3)
  have 5: "normalize_space_dash_quotes_inside ?t = ?t" by (rule normalize_plain[OF 4])
  have 6: "py_strip ?t = ?t" by (rule strip_angle)
  show ?thesis
    unfolding cleanup_marker_like_string_def Let_def 1 2 3 5 6 looks_like_shape
    by simp
qed

lemma repair_content_plain:
  assumes nfc: "nfc_fixes_plain nfc" and plain: "list_all plain_cp s"
  shows "repair_content nfc s
           = (if is_angle_bracketed s then cleanup_marker_like_string nfc s else s)"
  by (simp add: repair_content_def Let_def demojibake_plain[OF nfc plain])


section \<open>Order of the candidates\<close>

lemma tuple_lt_irrefl: "\<not> tuple_lt x x"
  by (cases x) simp

lemma tuple_le_trans: "\<not> tuple_lt y x \<Longrightarrow> \<not> tuple_lt z y \<Longrightarrow> \<not> tuple_lt z x"
  by (cases x; cases y; cases z) auto


lemma py_min_by_least: "t \<in> set (b # xs) \<Longrightarrow> \<not> tuple_lt (k t) (k (py_min_by k b xs))"
proof (induction xs arbitrary: b t)
  case Nil
  then show ?case by (simp add: tuple_lt_irrefl)
next
  case (Cons x xs)
  let ?b = "if tuple_lt (k x) (k b) then x else b"
  have m: "\<not> tuple_lt (k ?b) (k (py_min_by k ?b xs))"
    by (rule Cons.IH) simp
  have bb: "\<not> tuple_lt (k b) (k ?b)"
    by (cases "k x"; cases "k b") (auto simp: tuple_lt_irrefl)
  have bx: "\<not> tuple_lt (k x) (k ?b)"
    by (auto simp: tuple_lt_irrefl)
  from Cons.prems consider "t = b" | "t = x" | "t \<in> set xs" by auto
  then show ?case
  proof cases
    case 1
    with tuple_le_trans[OF m bb] show ?thesis by simp
  next
    case 2
    with tuple_le_trans[OF m bx] show ?thesis by simp
  next
    case 3
    then have "t \<in> set (?b # xs)" by simp
    then have "\<not> tuple_lt (k t) (k (py_min_by k ?b xs))" by (rule Cons.IH)
    then show ?thesis by simp
  qed
qed

lemma direct_no_remnants: "\<not> has_mojibake_remnants (direct s)"
proof -
  let ?r1 = "py_replace MOJI_BAR [FULLWIDTH_BAR] s"
  let ?r2 = "py_replace MOJI_BLOCK_ESC [SPM_BLOCK] ?r1"
  let ?r3 = "py_replace MOJI_BLOCK_LIT [SPM_BLOCK] ?r2"
  have bar1: "\<not> py_in MOJI_BAR ?r1"
    by (rule py_replace_removes) (simp_all add: MOJI_BAR_def FULLWIDTH_BAR_def)
  have bar2: "\<not> py_in MOJI_BAR ?r2"
    using bar1 py_in_py_replace[of MOJI_BLOCK_ESC SPM_BLOCK MOJI_BAR ?r1]
    by (auto simp: MOJI_BAR_def MOJI_BLOCK_ESC_def SPM_BLOCK_def)
  have bar3: "\<not> py_in MOJI_BAR ?r3"
    using bar2 py_in_py_replace[of MOJI_BLOCK_LIT SPM_BLOCK MOJI_BAR ?r2]
    by (auto simp: MOJI_BAR_def MOJI_BLOCK_LIT_def SPM_BLOCK_def)
  have blk3: "\<not> py_in MOJI_BLOCK_LIT ?r3"
    by (rule py_replace_removes) (simp_all add: MOJI_BLOCK_LIT_def SPM_BLOCK_def)
  have same: "MOJI_BLOCK_ESC = MOJI_BLOCK_LIT"
    by (simp add: MOJI_BLOCK_ESC_def MOJI_BLOCK_LIT_def)
  show ?thesis
    using bar3 blk3 by (simp add: has_mojibake_remnants_def direct_def same)
qed

lemma score_fst: "fst (score t) = 0 \<longleftrightarrow> \<not> has_mojibake_remnants t"
  by (auto simp: score_def has_mojibake_remnants_def)

lemma score_fst_nonneg: "0 \<le> fst (score t)"
  by (simp add: score_def)

lemma score_snd: "snd (score t) = - int (target_count t)"
proof -
  have "py_count FULLWIDTH_BAR t + py_count SPM_BLOCK t = target_count t"
    by (induction t) (auto simp: py_count_def target_count_def FULLWIDTH_BAR_def SPM_BLOCK_def)
  then show ?thesis by (simp add: score_def)
qed

lemma better_iff: "better a b \<longleftrightarrow> tuple_lt (score a) (score b)"
proof -
  have "tuple_lt (score a) (score b)
          \<longleftrightarrow> fst (score a) < fst (score b)
                \<or> (fst (score a) = fst (score b) \<and> snd (score a) < snd (score b))"
    by (cases "score a"; cases "score b") simp
  then show ?thesis by (auto simp: better_def score_snd)
qed




lemma best_candidate_least:
  "t \<in> set (candidates l c s) \<Longrightarrow> \<not> better t (best_candidate l c s)"
  unfolding best_candidate_def candidates_def better_iff by (rule py_min_by_least)

lemma direct_candidate: "direct s \<in> set (candidates l c s)"
  by (simp add: candidates_def later_candidates_def)





lemma best_candidate_clean: "\<not> has_mojibake_remnants (best_candidate l c s)"
proof -
  have "\<not> better (direct s) (best_candidate l c s)"
    by (rule best_candidate_least[OF direct_candidate])
  moreover have "fst (score (direct s)) = 0" by (simp add: score_fst direct_no_remnants)
  ultimately have "fst (score (best_candidate l c s)) \<le> 0" by (auto simp: better_def)
  with score_fst_nonneg[of "best_candidate l c s"] show ?thesis
    by (simp add: score_fst[symmetric])
qed

section \<open>The self-test samples\<close>

lemma expected_literal:
  "self_test_expected =
     [[60, 65372, 98, 101, 103, 105, 110, 9601, 111, 102, 9601, 115, 101, 110, 116, 101, 110, 99, 101, 65372, 62],
      [60, 65372, 101, 110, 100, 9601, 111, 102, 9601, 115, 101, 110, 116, 101, 110, 99, 101, 65372, 62],
      [60, 65372, 85, 115, 101, 114, 65372, 62],
      [60, 65372, 65, 115, 115, 105, 115, 116, 97, 110, 116, 65372, 62]]"
  by (simp add: self_test_expected_def consts_defs)

lemma samples_literal:
  "self_test_samples =
     [[60, 239, 189, 339, 98, 101, 103, 105, 110, 226, 8211, 129, 111, 102, 226, 8211, 129, 115, 101, 110, 116, 101, 110, 99, 101, 239, 189, 339, 62],
      [60, 239, 189, 339, 101, 110, 100, 226, 8211, 129, 111, 102, 226, 8211, 129, 115, 101, 110, 116, 101, 110, 99, 101, 239, 189, 339, 62],
      [60, 239, 189, 339, 85, 115, 101, 114, 239, 189, 339, 62],
      [60, 239, 189, 339, 65, 115, 115, 105, 115, 116, 97, 110, 116, 239, 189, 339, 62]]"
  by (simp add: self_test_samples_def consts_defs)

lemma latin1_forms_literal:
  "marker_texts LATIN1_BAR LATIN1_BLOCK =
     [[60, 239, 189, 156, 98, 101, 103, 105, 110, 226, 150, 129, 111, 102, 226, 150, 129, 115, 101, 110, 116, 101, 110, 99, 101, 239, 189, 156, 62],
      [60, 239, 189, 156, 101, 110, 100, 226, 150, 129, 111, 102, 226, 150, 129, 115, 101, 110, 116, 101, 110, 99, 101, 239, 189, 156, 62],
      [60, 239, 189, 156, 85, 115, 101, 114, 239, 189, 156, 62],
      [60, 239, 189, 156, 65, 115, 115, 105, 115, 116, 97, 110, 116, 239, 189, 156, 62]]"
  by (simp add: marker_texts_def consts_defs)

lemma best_sample_bos:
  "best_candidate
     (latin1_attempt [60, 239, 189, 339, 98, 101, 103, 105, 110, 226, 8211, 129, 111, 102, 226, 8211, 129, 115, 101, 110, 116, 101, 110, 99, 101, 239, 189, 339, 62])
     (cp1252_attempt [60, 239, 189, 339, 98, 101, 103, 105, 110, 226, 8211, 129, 111, 102, 226, 8211, 129, 115, 101, 110, 116, 101, 110, 99, 101, 239, 189, 339, 62])
     [60, 239, 189, 339, 98, 101, 103, 105, 110, 226, 8211, 129, 111, 102, 226, 8211, 129, 115, 101, 110, 116, 101, 110, 99, 101, 239, 189, 339, 62]
   = [60, 65372, 98, 101, 103, 105, 110, 9601, 111, 102, 9601, 115, 101, 110, 116, 101, 110, 99, 101, 65372, 62]"
  by (simp add: repair_defs MOJI_BAR_def MOJI_BLOCK_ESC_def MOJI_BLOCK_LIT_def
        FULLWIDTH_BAR_def SPM_BLOCK_def)

lemma best_sample_eos:
  "best_candidate
     (latin1_attempt [60, 239, 189, 339, 101, 110, 100, 226, 8211, 129, 111, 102, 226, 8211, 129, 115, 101, 110, 116, 101, 110, 99, 101, 239, 189, 339, 62])
     (cp1252_attempt [60, 239, 189, 339, 101, 110, 100, 226, 8211, 129, 111, 102, 226, 8211, 129, 115, 101, 110, 116, 101, 110, 99, 101, 239, 189, 339, 62])
     [60, 239, 189, 339, 101, 110, 100, 226, 8211, 129, 111, 102, 226, 8211, 129, 115, 101, 110, 116, 101, 110, 99, 101, 239, 189, 339, 62]
   = [60, 65372, 101, 110, 100, 9601, 111, 102, 9601, 115, 101, 110, 116, 101, 110, 99, 101, 65372, 62]"
  by (simp add: repair_defs MOJI_BAR_def MOJI_BLOCK_ESC_def MOJI_BLOCK_LIT_def
        FULLWIDTH_BAR_def SPM_BLOCK_def)

lemma best_sample_user:
  "best_candidate
     (latin1_attempt [60, 239, 189, 339, 85, 115, 101, 114, 239, 189, 339, 62])
     (cp1252_attempt [60, 239, 189, 339, 85, 115, 101, 114, 239, 189, 339, 62])
     [60, 239, 189, 339, 85, 115, 101, 114, 239, 189, 339, 62]
   = [60, 65372, 85, 115, 101, 114, 65372, 62]"
  by (simp add: repair_defs MOJI_BAR_def MOJI_BLOCK_ESC_def MOJI_BLOCK_LIT_def
        FULLWIDTH_BAR_def SPM_BLOCK_def)

lemma best_sample_assistant:
  "best_candidate
     (latin1_attempt [60, 239, 189, 339, 65, 115, 115, 105, 115, 116, 97, 110, 116, 239, 189, 339, 62])
     (cp1252_attempt [60, 239, 189, 339, 65, 115, 115, 105, 115, 116, 97, 110, 116, 239, 189, 339, 62])
     [60, 239, 189, 339, 65, 115, 115, 105, 115, 116, 97, 110, 116, 239, 189, 339, 62]
   = [60, 65372, 65, 115, 115, 105, 115, 116, 97, 110, 116, 65372, 62]"
  by (simp add: repair_defs MOJI_BAR_def MOJI_BLOCK_ESC_def MOJI_BLOCK_LIT_def
        FULLWIDTH_BAR_def SPM_BLOCK_def)

lemma best_latin1_bos:
  "best_candidate
     (latin1_attempt [60, 239, 189, 156, 98, 101, 103, 105, 110, 226, 150, 129, 111, 102, 226, 150, 129, 115, 101, 110, 116, 101, 110, 99, 101, 239, 189, 156, 62])
     (cp1252_attempt [60, 239, 189, 156, 98, 101, 103, 105, 110, 226, 150, 129, 111, 102, 226, 150, 129, 115, 101, 110, 116, 101, 110, 99, 101, 239, 189, 156, 62])
     [60, 239, 189, 156, 98, 101, 103, 105, 110, 226, 150, 129, 111, 102, 226, 150, 129, 115, 101, 110, 116, 101, 110, 99, 101, 239, 189, 156, 62]
   = [60, 65372, 98, 101, 103, 105, 110, 9601, 111, 102, 9601, 115, 101, 110, 116, 101, 110, 99, 101, 65372, 62]"
  by (simp add: repair_defs MOJI_BAR_def MOJI_BLOCK_ESC_def MOJI_BLOCK_LIT_def
        FULLWIDTH_BAR_def SPM_BLOCK_def)

lemma best_latin1_eos:
  "best_candidate
     (latin1_attempt [60, 239, 189, 156, 101, 110, 100, 226, 150, 129, 111, 102, 226, 150, 129, 115, 101, 110, 116, 101, 110, 99, 101, 239, 189, 156, 62])
     (cp1252_attempt [60, 239, 189, 156, 101, 110, 100, 226, 150, 129, 111, 102, 226, 150, 129, 115, 101, 110, 116, 101, 110, 99, 101, 239, 189, 156, 62])
     [60, 239, 189, 156, 101, 110, 100, 226, 150, 129, 111, 102, 226, 150, 129, 115, 101, 110, 116, 101, 110, 99, 101, 239, 189, 156, 62]
   = [60, 65372, 101, 110, 100, 9601, 111, 102, 9601, 115, 101, 110, 116, 101, 110, 99, 101, 65372, 62]"
  by (simp add: repair_defs MOJI_BAR_def MOJI_BLOCK_ESC_def MOJI_BLOCK_LIT_def
        FULLWIDTH_BAR_def SPM_BLOCK_def)

lemma best_latin1_user:
  "best_candidate
     (latin1_attempt [60, 239, 189, 156, 85, 115, 101, 114, 239, 189, 156, 62])
     (cp1252_attempt [60, 239, 189, 156, 85, 115, 101, 114, 239, 189, 156, 62])
     [60, 239, 189, 156, 85, 115, 101, 114, 239, 189, 156, 62]
   = [60, 65372, 85, 115, 101, 114, 65372, 62]"
  by (simp add: repair_defs MOJI_BAR_def MOJI_BLOCK_ESC_def MOJI_BLOCK_LIT_def
        FULLWIDTH_BAR_def SPM_BLOCK_def)

lemma best_latin1_assistant:
  "best_candidate
     (latin1_attempt [60, 239, 189, 156, 65, 115, 115, 105, 115, 116, 97, 110, 116, 239, 189, 156, 62])
     (cp1252_attempt [60, 239, 189, 156, 65, 115, 115, 105, 115, 116, 97, 110, 116, 239, 189, 156, 62])
     [60, 239, 189, 156, 65, 115, 115, 105, 115, 116, 97, 110, 116, 239, 189, 156, 62]
   = [60, 65372, 65, 115, 115, 105, 115, 116, 97, 110, 116, 65372, 62]"
  by (simp add: repair_defs MOJI_BAR_def MOJI_BLOCK_ESC_def MOJI_BLOCK_LIT_def
        FULLWIDTH_BAR_def SPM_BLOCK_def)

lemma looks_like_canon:
  assumes "c \<in> set self_test_expected"
  shows "looks_like_one_of_four_chat_markers c = (True, c)"
proof -
  from assms obtain p where p: "p \<in> set marker_payloads" and c: "c = 0x3C # p @ [0x3E]"
    unfolding canonical_of_payloads[symmetric] by auto
  show ?thesis unfolding c looks_like_shape using p by (simp add: payload_fixed)
qed

lemma plain_canon: "c \<in> set self_test_expected \<Longrightarrow> list_all plain_cp c"
  by (auto simp: self_test_expected_def consts_defs plain_cp_def)

lemma repaired_sample:
  assumes nfc: "nfc_fixes_plain nfc" and c: "c \<in> set self_test_expected"
    and best: "best_candidate (latin1_attempt s) (cp1252_attempt s) s = c"
  shows "looks_like_one_of_four_chat_markers (demojibake_and_normalize nfc s) = (True, c)"
proof -
  have "nfc c = c" using nfc plain_canon[OF c] by (simp add: nfc_fixes_plain_def)
  then show ?thesis by (simp add: demojibake_and_normalize_def best looks_like_canon[OF c])
qed

section \<open>Scanning a template\<close>








section \<open>Deduplication\<close>

lemma dedupe_loop_step:
  "dedupe_loop idx ((a, tok) # rest) seen removed new_list =
     (case content_of tok of
        Some c \<Rightarrow>
          if c \<in> dom seen
          then dedupe_loop (Suc idx) rest seen (removed @ [(idx, id_of tok, c)]) new_list
          else dedupe_loop (Suc idx) rest (seen(c \<mapsto> id_of tok)) removed
                 (new_list @ [(a, tok)])
      | None \<Rightarrow> dedupe_loop (Suc idx) rest seen removed (new_list @ [(a, tok)]))"
  by (simp add: content_of_def id_of_def split: json.splits)

lemma repeats_at_end:
  "repeats (pre @ x # rest) (length pre)
     \<longleftrightarrow> (\<exists>c. content_of (snd x) = Some c \<and> Some c \<in> (\<lambda>p. content_of (snd p)) ` set pre)"
proof -
  have "(\<exists>j<length pre. content_of (snd ((pre @ x # rest) ! j)) = content_of (snd x))
          \<longleftrightarrow> content_of (snd x) \<in> (\<lambda>p. content_of (snd p)) ` set pre"
  proof
    assume "\<exists>j<length pre. content_of (snd ((pre @ x # rest) ! j)) = content_of (snd x)"
    then obtain j where j: "j < length pre"
      and c: "content_of (snd ((pre @ x # rest) ! j)) = content_of (snd x)" by blast
    from j have "(pre @ x # rest) ! j = pre ! j" by (simp add: nth_append)
    with c j have "pre ! j \<in> set pre" "content_of (snd (pre ! j)) = content_of (snd x)"
      by simp_all
    then show "content_of (snd x) \<in> (\<lambda>p. content_of (snd p)) ` set pre"
      by (metis image_eqI)
  next
    assume "content_of (snd x) \<in> (\<lambda>p. content_of (snd p)) ` set pre"
    then obtain p where p: "p \<in> set pre" and c: "content_of (snd x) = content_of (snd p)"
      by blast
    from p obtain j where j: "j < length pre" and "pre ! j = p"
      by (auto simp: in_set_conv_nth)
    then have "content_of (snd ((pre @ x # rest) ! j)) = content_of (snd x)"
      using c by (simp add: nth_append)
    with j show "\<exists>j<length pre. content_of (snd ((pre @ x # rest) ! j)) = content_of (snd x)"
      by blast
  qed
  moreover have "(pre @ x # rest) ! length pre = x" by simp
  ultimately have "repeats (pre @ x # rest) (length pre)
      \<longleftrightarrow> content_of (snd x) \<noteq> None
            \<and> content_of (snd x) \<in> (\<lambda>p. content_of (snd p)) ` set pre"
    unfolding repeats_def by simp
  then show ?thesis by (cases "content_of (snd x)") simp_all
qed

lemma dedupe_loop_spec:
  assumes "dom seen = {c. Some c \<in> (\<lambda>p. content_of (snd p)) ` set pre}"
  shows "dedupe_loop (length pre) ts seen removed new_list =
           (removed @ map (removal_record (pre @ ts))
                        (filter (repeats (pre @ ts)) [length pre..<length pre + length ts]),
            new_list @ map ((!) (pre @ ts))
                         (filter (\<lambda>i. \<not> repeats (pre @ ts) i)
                            [length pre..<length pre + length ts]))"
  using assms
proof (induction ts arbitrary: pre seen removed new_list)
  case Nil
  then show ?case by simp
next
  case (Cons x rest)
  obtain a tok where x: "x = (a, tok)" by (cases x)
  let ?pre = "pre @ [x]"
  define W where "W = pre @ x # rest"
  define L where "L = [length ?pre..<length ?pre + length rest]"
  have whole: "?pre @ rest = W" by (simp add: W_def)
  have len: "length ?pre = Suc (length pre)" by simp
  have "[length pre..<length pre + length (x # rest)]
          = length pre # [Suc (length pre)..<length pre + length (x # rest)]"
    by (rule upt_conv_Cons) simp
  then have upt: "[length pre..<length pre + length (x # rest)] = length pre # L"
    by (simp add: L_def)
  have at: "W ! length pre = x" by (simp add: W_def)
  have rep: "repeats W (length pre) \<longleftrightarrow> (\<exists>c. content_of tok = Some c \<and> c \<in> dom seen)"
    using repeats_at_end[of pre x rest] Cons.prems by (simp add: x W_def)
  have ih: "dedupe_loop (Suc (length pre)) rest seen' removed' new_list' =
              (removed' @ map (removal_record W) (filter (repeats W) L),
               new_list' @ map ((!) W) (filter (\<lambda>i. \<not> repeats W i) L))"
    if "dom seen' = {c. Some c \<in> (\<lambda>p. content_of (snd p)) ` set ?pre}"
    for seen' removed' new_list'
    using Cons.IH[OF that, of removed' new_list'] unfolding whole L_def[symmetric]
    by (simp only: len)
  have goal: "?case \<longleftrightarrow>
      dedupe_loop (length pre) (x # rest) seen removed new_list =
        (removed @ map (removal_record W) (filter (repeats W) (length pre # L)),
         new_list @ map ((!) W) (filter (\<lambda>i. \<not> repeats W i) (length pre # L)))"
    unfolding W_def upt by simp
  show ?case
  proof (cases "content_of tok")
    case None
    have d: "dom seen = {c. Some c \<in> (\<lambda>p. content_of (snd p)) ` set ?pre}"
      using Cons.prems None by (auto simp: x)
    have nr: "\<not> repeats W (length pre)" using rep None by simp
    have "dedupe_loop (length pre) (x # rest) seen removed new_list
            = dedupe_loop (Suc (length pre)) rest seen removed (new_list @ [x])"
      unfolding x dedupe_loop_step using None by simp
    then show ?thesis unfolding goal ih[OF d] using nr at by simp
  next
    case (Some c)
    show ?thesis
    proof (cases "c \<in> dom seen")
      case True
      have d: "dom seen = {c. Some c \<in> (\<lambda>p. content_of (snd p)) ` set ?pre}"
        using Cons.prems Some True by (auto simp: x)
      have r: "repeats W (length pre)" using rep Some True by simp
      have rr: "removal_record W (length pre) = (length pre, id_of tok, c)"
        using at Some by (simp add: removal_record_def x)
      have "dedupe_loop (length pre) (x # rest) seen removed new_list
              = dedupe_loop (Suc (length pre)) rest seen
                  (removed @ [(length pre, id_of tok, c)]) new_list"
        unfolding x dedupe_loop_step using Some True by simp
      then show ?thesis unfolding goal ih[OF d] using r rr by simp
    next
      case False
      have d: "dom (seen(c \<mapsto> id_of tok))
                 = {c. Some c \<in> (\<lambda>p. content_of (snd p)) ` set ?pre}"
        using Cons.prems Some by (auto simp: x)
      have nr: "\<not> repeats W (length pre)" using rep Some False by simp
      have "dedupe_loop (length pre) (x # rest) seen removed new_list
              = dedupe_loop (Suc (length pre)) rest (seen(c \<mapsto> id_of tok)) removed
                  (new_list @ [x])"
        unfolding x dedupe_loop_step using Some False by simp
      then show ?thesis unfolding goal ih[OF d] using nr at by simp
    qed
  qed
qed

lemma dedupe_loop_first_occurrences:
  "dedupe_loop 0 toks Map.empty [] [] =
     (map (removal_record toks) (filter (repeats toks) [0..<length toks]),
      map ((!) toks) (filter (\<lambda>i. \<not> repeats toks i) [0..<length toks]))"
  using dedupe_loop_spec[of Map.empty "[]" toks "[]" "[]"] by simp

lemma nothing_removed:
  assumes "filter (repeats toks) [0..<length toks] = []"
  shows "map ((!) toks) (filter (\<lambda>i. \<not> repeats toks i) [0..<length toks]) = toks"
proof -
  from assms have "\<forall>i \<in> set [0..<length toks]. \<not> repeats toks i"
    by (simp add: filter_empty_conv)
  then have "filter (\<lambda>i. \<not> repeats toks i) [0..<length toks] = [0..<length toks]"
    by (simp add: filter_id_conv)
  then show ?thesis by (simp add: map_nth)
qed

lemma dedupe_spec:
  "dedupe toks r =
     (map ((!) toks) (filter (\<lambda>i. \<not> repeats toks i) [0..<length toks]),
      r\<lparr>changes := changes r
          @ (if filter (repeats toks) [0..<length toks] = [] then []
             else DedupHeader
                    # map (\<lambda>i. case removal_record toks i of (idx, tid, c) \<Rightarrow>
                                  DedupRemoved idx tid c)
                        (filter (repeats toks) [0..<length toks]))\<rparr>,
      map (removal_record toks) (filter (repeats toks) [0..<length toks]))"
  by (simp add: dedupe_def dedupe_loop_first_occurrences nothing_removed comp_def
        case_prod_unfold)


lemma filter_single_index: "i0 < n \<Longrightarrow> filter (\<lambda>i. i = i0) [0..<n] = [i0]"
  by (induction n) (auto simp: less_Suc_eq)

lemma kept_once:
  assumes p: "p \<in> set toks" and c: "content_of (snd p) = Some c"
  shows "length (filter (\<lambda>q. content_of (snd q) = Some c)
                  (map ((!) toks) (filter (\<lambda>i. \<not> repeats toks i) [0..<length toks]))) = 1"
proof -
  let ?n = "length toks"
  let ?P = "\<lambda>i. content_of (snd (toks ! i)) = Some c"
  from p obtain k where k: "k < ?n" "toks ! k = p" by (auto simp: in_set_conv_nth)
  with c have ex: "k < ?n \<and> ?P k" by simp
  define i0 where "i0 = (LEAST i. i < ?n \<and> ?P i)"
  have i0: "i0 < ?n \<and> ?P i0" unfolding i0_def using ex by (rule LeastI)
  have least: "i0 \<le> j" if "j < ?n \<and> ?P j" for j
    unfolding i0_def using that by (rule Least_le)
  have first: "\<not> repeats toks i0"
  proof
    assume "repeats toks i0"
    then obtain j where j: "j < i0" "content_of (snd (toks ! j)) = content_of (snd (toks ! i0))"
      by (auto simp: repeats_def)
    with i0 have "j < ?n \<and> ?P j" by simp
    from least[OF this] j(1) show False by simp
  qed
  have only: "i = i0" if "i < ?n" "?P i" "\<not> repeats toks i" for i
  proof (rule ccontr)
    assume "i \<noteq> i0"
    with least[of i] that have "i0 < i" by simp
    with i0 that(2) have "repeats toks i" by (auto simp: repeats_def)
    with that(3) show False by simp
  qed
  have "filter (\<lambda>i. ?P i \<and> \<not> repeats toks i) [0..<?n] = filter (\<lambda>i. i = i0) [0..<?n]"
    by (rule filter_cong) (use i0 first only in auto)
  also have "\<dots> = [i0]" using i0 by (simp add: filter_single_index)
  finally have one: "filter (\<lambda>i. ?P i \<and> \<not> repeats toks i) [0..<?n] = [i0]" .
  have "length (filter (\<lambda>q. content_of (snd q) = Some c)
                 (map ((!) toks) (filter (\<lambda>i. \<not> repeats toks i) [0..<?n])))
          = length (filter (\<lambda>i. ?P i \<and> \<not> repeats toks i) [0..<?n])"
    by (simp add: filter_map comp_def conj_commute)
  then show ?thesis by (simp add: one)
qed


section \<open>Dictionaries and the keys of an entry\<close>

lemma map_of_dict_set: "map_of (dict_set k v d) k' = (if k' = k then Some v else map_of d k')"
  by (induction d) auto

lemma dict_get_dict_set:
  "dict_get (dict_set k v d) k' = (if k' = k then v else dict_get d k')"
  by (simp add: dict_get_def map_of_dict_set)

lemma keys_differ:
  "k_id \<noteq> k_content" "k_id \<noteq> k_special" "k_id \<noteq> k_normalized"
  "k_content \<noteq> k_special" "k_content \<noteq> k_normalized" "k_special \<noteq> k_normalized"
  by (simp_all add: k_id_def k_content_def k_special_def k_normalized_def asc_def)

section \<open>The pass over the token collection\<close>

lemma process_added_token_dict:
  "map_of d k_content = Some (JStr b) \<Longrightarrow>
     fst (process_added_token nfc idx (JObj d) r)
       = JObj (dict_set k_normalized (JBool False)
                (if repair_content nfc b = CANON_BOS \<or> repair_content nfc b = CANON_EOS
                 then dict_set k_special (JBool True)
                        (if repair_content nfc b \<noteq> b
                         then dict_set k_content (JStr (repair_content nfc b)) d else d)
                 else (if repair_content nfc b \<noteq> b
                       then dict_set k_content (JStr (repair_content nfc b)) d else d)))"
  by (simp add: process_added_token_def Let_def)

lemma process_added_token_other:
  "\<not> (\<exists>d b. tok = JObj d \<and> map_of d k_content = Some (JStr b)) \<Longrightarrow>
     process_added_token nfc idx tok r = (tok, r)"
proof (cases tok)
  case (JObj d)
  assume n: "\<not> (\<exists>d b. tok = JObj d \<and> map_of d k_content = Some (JStr b))"
  show ?thesis
  proof (cases "map_of d k_content")
    case None
    then show ?thesis by (simp add: JObj process_added_token_def)
  next
    case (Some v)
    with n JObj have "\<forall>b. v \<noteq> JStr b" by auto
    then show ?thesis by (cases v) (simp_all add: JObj Some process_added_token_def)
  qed
qed (simp_all add: process_added_token_def)

lemma process_added_token_id:
  "id_of (fst (process_added_token nfc idx tok r)) = id_of tok"
  "is_dict (fst (process_added_token nfc idx tok r)) = is_dict tok"
proof -
  show "id_of (fst (process_added_token nfc idx tok r)) = id_of tok"
  proof (cases "\<exists>d b. tok = JObj d \<and> map_of d k_content = Some (JStr b)")
    case True
    then obtain d b where "tok = JObj d" "map_of d k_content = Some (JStr b)" by blast
    then show ?thesis
      using keys_differ by (simp add: process_added_token_dict id_of_def dict_get_dict_set)
  next
    case False
    then show ?thesis by (simp add: process_added_token_other)
  qed
  show "is_dict (fst (process_added_token nfc idx tok r)) = is_dict tok"
  proof (cases "\<exists>d b. tok = JObj d \<and> map_of d k_content = Some (JStr b)")
    case True
    then obtain d b where "tok = JObj d" "map_of d k_content = Some (JStr b)" by blast
    then show ?thesis by (simp add: process_added_token_dict is_dict_def)
  next
    case False
    then show ?thesis by (simp add: process_added_token_other)
  qed
qed

lemma process_added_token_flags:
  "check_flags_entry i (fst (process_added_token nfc idx tok r)) = []"
proof (cases "\<exists>d b. tok = JObj d \<and> map_of d k_content = Some (JStr b)")
  case True
  then obtain d b where tok: "tok = JObj d" and b: "map_of d k_content = Some (JStr b)"
    by blast
  from b have g: "dict_get d k_content = JStr b" by (simp add: dict_get_def)
  show ?thesis
    unfolding tok process_added_token_dict[OF b] check_flags_entry_def
    using g keys_differ by (simp add: dict_get_dict_set map_of_dict_set)
next
  case False
  then have p: "process_added_token nfc idx tok r = (tok, r)"
    by (rule process_added_token_other)
  then have q: "fst (process_added_token nfc idx tok r) = tok" by simp
  have "check_flags_entry i tok = []"
  proof (cases tok)
    case (JObj d)
    with False have "\<forall>b. map_of d k_content \<noteq> Some (JStr b)" by simp
    then have "\<forall>b. dict_get d k_content \<noteq> JStr b"
      by (auto simp: dict_get_def split: option.splits)
    then show ?thesis
      unfolding JObj check_flags_entry_def by (cases "dict_get d k_content") simp_all
  qed (simp_all add: check_flags_entry_def)
  then show ?thesis by (simp only: q)
qed

lemma process_added_tokens_origin:
  "(a, t') \<in> set (fst (process_added_tokens nfc idx toks r)) \<Longrightarrow>
     \<exists>t i r'. (a, t) \<in> set toks \<and> t' = fst (process_added_token nfc i t r')"
proof (induction toks arbitrary: idx r)
  case Nil
  then show ?case by simp
next
  case (Cons x toks)
  obtain b t where x: "x = (b, t)" by (cases x)
  obtain t1 r1 where s: "process_added_token nfc idx t r = (t1, r1)" by force
  obtain rest r2 where p: "process_added_tokens nfc (Suc idx) toks r1 = (rest, r2)" by force
  from Cons.prems have "(a, t') = (b, t1) \<or> (a, t') \<in> set rest"
    by (simp add: x s p)
  then show ?case
  proof
    assume "(a, t') = (b, t1)"
    then have "(a, t) \<in> set (x # toks)" and "t' = fst (process_added_token nfc idx t r)"
      by (simp_all add: x s)
    then show ?thesis by blast
  next
    assume "(a, t') \<in> set rest"
    then have "(a, t') \<in> set (fst (process_added_tokens nfc (Suc idx) toks r1))"
      by (simp add: p)
    from Cons.IH[OF this] show ?thesis by auto
  qed
qed

lemma dedupe_subset: "set (fst (dedupe toks r)) \<subseteq> set toks"
  by (auto simp: dedupe_spec)

lemma check_flags_empty:
  "(\<forall>p \<in> set toks. \<forall>i. check_flags_entry i (snd p) = []) \<Longrightarrow> check_flags idx toks = []"
  by (induction toks arbitrary: idx) auto

lemma check_flags_at:
  "i < length toks \<Longrightarrow>
     set (check_flags_entry (idx + i) (snd (toks ! i))) \<subseteq> set (check_flags idx toks)"
proof (induction toks arbitrary: idx i)
  case Nil
  then show ?case by simp
next
  case (Cons x toks)
  obtain b t where x: "x = (b, t)" by (cases x)
  show ?case
  proof (cases i)
    case 0
    then show ?thesis by (simp add: x)
  next
    case (Suc j)
    with Cons.prems have "j < length toks" by simp
    from Cons.IH[OF this, of "Suc idx"] show ?thesis by (auto simp: x Suc)
  qed
qed

lemma processed_flags_clean:
  "check_flags idx (fst (dedupe (fst (process_added_tokens nfc idx' toks r)) r')) = []"
proof (rule check_flags_empty, intro ballI allI)
  fix p i
  assume "p \<in> set (fst (dedupe (fst (process_added_tokens nfc idx' toks r)) r'))"
  then have "p \<in> set (fst (process_added_tokens nfc idx' toks r))"
    using dedupe_subset by blast
  then have "(fst p, snd p) \<in> set (fst (process_added_tokens nfc idx' toks r))" by simp
  from process_added_tokens_origin[OF this]
  show "check_flags_entry i (snd p) = []" by (auto simp: process_added_token_flags)
qed

section \<open>Identifiers\<close>

lemma map_of_capture_ids:
  "distinct (map fst toks) \<Longrightarrow> (a, JObj d) \<in> set toks \<Longrightarrow>
     map_of (capture_ids toks) a = Some (dict_get d k_id)"
proof (induction toks)
  case Nil
  then show ?case by simp
next
  case (Cons x toks)
  obtain b t where x: "x = (b, t)" by (cases x)
  from Cons.prems(1) have nb: "b \<notin> fst ` set toks" and dist: "distinct (map fst toks)"
    by (simp_all add: x)
  from Cons.prems(2) have "(a, JObj d) = (b, t) \<or> (a, JObj d) \<in> set toks" by (simp add: x)
  then show ?case
  proof
    assume "(a, JObj d) = (b, t)"
    then have "a = b" and "t = JObj d" by simp_all
    then show ?thesis by (simp add: x)
  next
    assume m: "(a, JObj d) \<in> set toks"
    then have "a \<noteq> b" using nb by force
    with Cons.IH[OF dist m] show ?thesis by (simp add: x split: json.splits)
  qed
qed

lemma check_ids_empty:
  "(\<forall>(a, t) \<in> set toks. \<forall>d. t = JObj d \<longrightarrow> map_of ids a = Some (dict_get d k_id))
     \<Longrightarrow> check_ids ids toks = []"
  by (induction toks) (auto split: json.splits)

lemma load_objs_distinct: "distinct (map fst (load_objs xs))"
  by (simp add: load_objs_def)


lemma survivors_origin:
  assumes "(a, t') \<in> set (fst (dedupe (fst (process_added_tokens nfc idx toks r)) r'))"
  shows "\<exists>t. (a, t) \<in> set toks \<and> id_of t' = id_of t \<and> is_dict t' = is_dict t"
proof -
  from assms have "(a, t') \<in> set (fst (process_added_tokens nfc idx toks r))"
    using dedupe_subset by blast
  from process_added_tokens_origin[OF this] show ?thesis
    by (auto simp: process_added_token_id)
qed

lemma survivors_ids_unchanged:
  assumes "distinct (map fst toks)"
  shows "check_ids (capture_ids toks)
           (fst (dedupe (fst (process_added_tokens nfc idx toks r)) r')) = []"
proof (rule check_ids_empty, clarify)
  fix a d
  assume "(a, JObj d) \<in> set (fst (dedupe (fst (process_added_tokens nfc idx toks r)) r'))"
  from survivors_origin[OF this] obtain t where t: "(a, t) \<in> set toks"
    and i: "id_of (JObj d) = id_of t" and k: "is_dict (JObj d) = is_dict t" by blast
  from k obtain d0 where d0: "t = JObj d0" by (cases t) (simp_all add: is_dict_def)
  from map_of_capture_ids[OF assms t[unfolded d0]] i
  show "map_of (capture_ids toks) a = Some (dict_get d k_id)"
    by (simp add: d0 id_of_def)
qed

section \<open>The run\<close>

lemma repair_pass_added:
  assumes "dict_get doc k_added_tokens = JArr xs"
  shows "p_added (fst (repair_pass nfc doc))
           = Some (fst (dedupe
                (fst (process_added_tokens nfc 0 (load_objs xs)
                        \<lparr>modified_count = 0, changes = []\<rparr>))
                (snd (process_added_tokens nfc 0 (load_objs xs)
                        \<lparr>modified_count = 0, changes = []\<rparr>))))"
    and "snd (repair_pass nfc doc) = capture_ids (load_objs xs)"
  using assms by (simp_all add: repair_pass_def Let_def case_prod_unfold)

lemma repair_pass_no_list:
  assumes "\<forall>xs. dict_get doc k_added_tokens \<noteq> JArr xs"
  shows "p_added (fst (repair_pass nfc doc)) = None"
  using assms
  by (cases "dict_get doc k_added_tokens")
     (simp_all add: repair_pass_def Let_def case_prod_unfold)

lemma repair_pass_ids_ok:
  "(case p_added (fst (repair_pass nfc doc)) of
      Some toks \<Rightarrow> check_ids (snd (repair_pass nfc doc)) toks
    | None \<Rightarrow> []) = []"
proof (cases "\<exists>xs. dict_get doc k_added_tokens = JArr xs")
  case True
  then obtain xs where xs: "dict_get doc k_added_tokens = JArr xs" by blast
  show ?thesis
    unfolding repair_pass_added[OF xs]
    by (simp add: survivors_ids_unchanged[OF load_objs_distinct])
next
  case False
  then show ?thesis by (simp add: repair_pass_no_list)
qed

lemma main_on_object:
  "tokenizer_json e = Holds (JObj doc) \<Longrightarrow>
     main nfc e = finish_run nfc e (fst (repair_pass nfc doc)) []"
  using repair_pass_ids_ok[of nfc doc]
  by (simp add: main_def case_prod_unfold)





section \<open>A second pass over a template\<close>








section \<open>Properties of the Text Repair Engine and the Marker Canonicalizer\<close>



text \<open>
  Claim C4.  On a string \<open><\<close> inner \<open>>\<close> the canonicalizer answers true exactly when
  the inner payload, with every ASCII bar replaced by the full-width bar, is one of the
  four payloads, and then returns that payload between \<open><\<close> and \<open>>\<close>, which is the
  canonical marker; otherwise, and on every string of another shape, it returns false
  and the string itself.
\<close>

theorem marker_canonicalizer_contract:
  "(\<forall>inner. s = 0x3C # inner @ [0x3E] \<longrightarrow>
      looks_like_one_of_four_chat_markers s
        = (if bar_subst inner \<in> set marker_payloads
           then (True, 0x3C # bar_subst inner @ [0x3E]) else (False, s)))
   \<and> ((\<forall>inner. s \<noteq> 0x3C # inner @ [0x3E]) \<longrightarrow>
         looks_like_one_of_four_chat_markers s = (False, s))
   \<and> map (\<lambda>p. 0x3C # p @ [0x3E]) marker_payloads
        = [CANON_BOS, CANON_EOS, CANON_USER, CANON_ASSISTANT]"
proof -
  have "looks_like_one_of_four_chat_markers s = (False, s)"
    if "\<forall>inner. s \<noteq> 0x3C # inner @ [0x3E]"
  proof -
    from that have "\<not> is_angle_bracketed s" by (auto simp: angle_iff)
    then show ?thesis by (rule looks_like_other)
  qed
  then show ?thesis
    using canonical_of_payloads by (auto simp: looks_like_shape self_test_expected_def)
qed

theorem marker_canonicalizer_contract_witness:
  "looks_like_one_of_four_chat_markers (asc ''<|User|>'') = (True, CANON_USER)
   \<and> looks_like_one_of_four_chat_markers (asc ''<|user|>'') = (False, asc ''<|user|>'')
   \<and> looks_like_one_of_four_chat_markers (asc ''|User|'') = (False, asc ''|User|'')"
proof -
  have 1: "asc ''<|User|>'' = 0x3C # asc ''|User|'' @ [0x3E]" by (simp add: asc_def)
  have 2: "asc ''<|user|>'' = 0x3C # asc ''|user|'' @ [0x3E]" by (simp add: asc_def)
  have 3: "\<forall>inner. asc ''|User|'' \<noteq> 0x3C # inner @ [0x3E]" by (simp add: asc_def)
  have a: "bar_subst (asc ''|User|'') \<in> set marker_payloads"
    by (simp add: bar_subst_def marker_payloads_def consts_defs)
  have b: "bar_subst (asc ''|user|'') \<notin> set marker_payloads"
    by (simp add: bar_subst_def marker_payloads_def consts_defs)
  have c: "0x3C # bar_subst (asc ''|User|'') @ [0x3E] = CANON_USER"
    by (simp add: bar_subst_def consts_defs)
  show ?thesis
    using marker_canonicalizer_contract[of "asc ''<|User|>''"]
      marker_canonicalizer_contract[of "asc ''<|user|>''"]
      marker_canonicalizer_contract[of "asc ''|User|''"] 1 2 3 a b c
    by simp
qed

text \<open>
  Claim C7.  For a normalizer that leaves plain strings alone, each of the four
  self-test samples (the markers with their UTF-8 bytes read as Windows-1252), and each
  marker with its UTF-8 bytes read as Latin-1, is repaired and then recognised as
  exactly its canonical marker; so the self-test reports nothing.
\<close>

theorem corrupted_markers_canonicalize:
  assumes "nfc_fixes_plain nfc"
  shows "map (\<lambda>s. looks_like_one_of_four_chat_markers (demojibake_and_normalize nfc s))
           self_test_samples
         = [(True, CANON_BOS), (True, CANON_EOS), (True, CANON_USER), (True, CANON_ASSISTANT)]
       \<and> map (\<lambda>s. looks_like_one_of_four_chat_markers (demojibake_and_normalize nfc s))
           (marker_texts LATIN1_BAR LATIN1_BLOCK)
         = [(True, CANON_BOS), (True, CANON_EOS), (True, CANON_USER), (True, CANON_ASSISTANT)]
       \<and> self_test nfc = []"
proof -
  note r = repaired_sample[OF assms]
  have e: "[CANON_BOS, CANON_EOS, CANON_USER, CANON_ASSISTANT] = self_test_expected"
    by (simp add: self_test_expected_def)
  have s: "map (\<lambda>s. looks_like_one_of_four_chat_markers (demojibake_and_normalize nfc s))
             self_test_samples = map (Pair True) self_test_expected"
    unfolding samples_literal
    by (simp add: r[OF _ best_sample_bos] r[OF _ best_sample_eos] r[OF _ best_sample_user]
          r[OF _ best_sample_assistant] expected_literal)
  have l: "map (\<lambda>s. looks_like_one_of_four_chat_markers (demojibake_and_normalize nfc s))
             (marker_texts LATIN1_BAR LATIN1_BLOCK) = map (Pair True) self_test_expected"
    unfolding latin1_forms_literal
    by (simp add: r[OF _ best_latin1_bos] r[OF _ best_latin1_eos] r[OF _ best_latin1_user]
          r[OF _ best_latin1_assistant] expected_literal)
  have "list_all (self_test_case nfc) (zip self_test_samples self_test_expected)"
    unfolding samples_literal expected_literal
    by (simp add: self_test_case_def r[OF _ best_sample_bos] r[OF _ best_sample_eos]
          r[OF _ best_sample_user] r[OF _ best_sample_assistant] expected_literal)
  then have "self_test nfc = []" by (simp add: self_test_def)
  with s l show ?thesis by (simp add: self_test_expected_def)
qed

theorem corrupted_markers_canonicalize_witness:
  "nfc_fixes_plain (\<lambda>s. s) \<and> self_test (\<lambda>s. s) = []
   \<and> map (\<lambda>s. looks_like_one_of_four_chat_markers (demojibake_and_normalize (\<lambda>s. s) s))
        self_test_samples
      = [(True, CANON_BOS), (True, CANON_EOS), (True, CANON_USER), (True, CANON_ASSISTANT)]"
proof -
  have h: "nfc_fixes_plain (\<lambda>s. s)" by (simp add: nfc_fixes_plain_def)
  show ?thesis using h corrupted_markers_canonicalize[OF h] by simp
qed

text \<open>
  Claim C10.  The one-character string \<open>U+00E9\<close> contains no known corruption and no
  marker character, its three candidates are the empty string twice (both re-encodings
  drop the byte \<open>0xE9\<close>, which starts a UTF-8 sequence that the end of the input cuts
  off) and the string itself, all three have the same score, and the first of them
  wins: the repair returns the empty string.
\<close>

theorem repair_deletes_accented_letter:
  assumes "nfc [] = []"
  shows "\<not> has_mojibake_remnants [0xE9] \<and> target_count [0xE9] = 0
       \<and> candidates (latin1_attempt [0xE9]) (cp1252_attempt [0xE9]) [0xE9]
           = [[], [], [0xE9]]
       \<and> score [] = score [0xE9]
       \<and> demojibake_and_normalize nfc [0xE9] = []
       \<and> length (demojibake_and_normalize nfc [0xE9]) < length [0xE9::nat]"
proof -
  have c: "candidates (latin1_attempt [0xE9]) (cp1252_attempt [0xE9]) [0xE9]
             = [[], [], [0xE9]]"
    by (simp add: candidates_def repair_defs MOJI_BAR_def MOJI_BLOCK_ESC_def
          MOJI_BLOCK_LIT_def FULLWIDTH_BAR_def SPM_BLOCK_def)
  have s: "score [] = score [0xE9]"
    by (simp add: score_def py_count_def MOJI_BAR_def MOJI_BLOCK_ESC_def MOJI_BLOCK_LIT_def
          FULLWIDTH_BAR_def SPM_BLOCK_def)
  have b: "best_candidate (latin1_attempt [0xE9]) (cp1252_attempt [0xE9]) [0xE9] = []"
    by (simp add: repair_defs MOJI_BAR_def MOJI_BLOCK_ESC_def MOJI_BLOCK_LIT_def
          FULLWIDTH_BAR_def SPM_BLOCK_def)
  have r: "\<not> has_mojibake_remnants [0xE9]"
    by (simp add: has_mojibake_remnants_def MOJI_BAR_def MOJI_BLOCK_ESC_def
          MOJI_BLOCK_LIT_def)
  have t: "target_count [0xE9] = 0"
    by (simp add: target_count_def FULLWIDTH_BAR_def SPM_BLOCK_def)
  show ?thesis using assms c s r t by (simp add: demojibake_and_normalize_def b)
qed

theorem repair_deletes_accented_letter_witness:
  "(\<lambda>s::ustr. s) [] = [] \<and> demojibake_and_normalize (\<lambda>s. s) [0xE9] = []"
  using repair_deletes_accented_letter[of "\<lambda>s. s"] by simp






text \<open>
  Claim C6.  Deduplication keeps exactly the entries that do not repeat the string
  content of an earlier entry, in their original order (entries without a string
  content are all kept), so each content of the collection is left with exactly one
  entry, its first; it records index, identifier and content of every entry it drops.
  Two entries with content \<open>X\<close> and identifiers 5 and 9 leave the entry with
  identifier 5, and the removal of identifier 9 is recorded.
\<close>

theorem dedupe_keeps_first_occurrences:
  "fst (dedupe toks r)
     = map ((!) toks) (filter (\<lambda>i. \<not> repeats toks i) [0..<length toks])
   \<and> snd (snd (dedupe toks r))
       = map (removal_record toks) (filter (repeats toks) [0..<length toks])
   \<and> (\<forall>p \<in> set toks. \<forall>c. content_of (snd p) = Some c \<longrightarrow>
         length (filter (\<lambda>q. content_of (snd q) = Some c) (fst (dedupe toks r))) = 1)
   \<and> (\<forall>i \<in> set (filter (repeats toks) [0..<length toks]).
         case removal_record toks i of (idx, tid, c) \<Rightarrow>
           DedupRemoved idx tid c \<in> set (changes (fst (snd (dedupe toks r)))))
   \<and> dedupe [(0, JObj [(k_id, JNum 5), (k_content, JStr (asc ''X''))]),
              (1, JObj [(k_id, JNum 9), (k_content, JStr (asc ''X''))])] r
       = ([(0, JObj [(k_id, JNum 5), (k_content, JStr (asc ''X''))])],
          r\<lparr>changes := changes r @ [DedupHeader, DedupRemoved 1 (JNum 9) (asc ''X'')]\<rparr>,
          [(1, JNum 9, asc ''X'')])"
proof (intro conjI ballI allI impI)
  show "fst (dedupe toks r)
          = map ((!) toks) (filter (\<lambda>i. \<not> repeats toks i) [0..<length toks])"
    by (simp add: dedupe_spec)
  show "snd (snd (dedupe toks r))
          = map (removal_record toks) (filter (repeats toks) [0..<length toks])"
    by (simp add: dedupe_spec)
  show "length (filter (\<lambda>q. content_of (snd q) = Some c) (fst (dedupe toks r))) = 1"
    if "p \<in> set toks" "content_of (snd p) = Some c" for p c
    using kept_once[OF that] by (simp add: dedupe_spec)
  show "case removal_record toks i of (idx, tid, c) \<Rightarrow>
          DedupRemoved idx tid c \<in> set (changes (fst (snd (dedupe toks r))))"
    if "i \<in> set (filter (repeats toks) [0..<length toks])" for i
  proof -
    from that have ne: "filter (repeats toks) [0..<length toks] \<noteq> []"
      by (metis empty_iff list.set(1))
    have "(case removal_record toks i of (idx, tid, c) \<Rightarrow> DedupRemoved idx tid c)
            \<in> set (map (\<lambda>i. case removal_record toks i of (idx, tid, c) \<Rightarrow>
                                  DedupRemoved idx tid c)
                      (filter (repeats toks) [0..<length toks]))"
      using that by (metis image_eqI list.set_map)
    then show ?thesis
      unfolding dedupe_spec using ne by (simp add: case_prod_unfold)
  qed
  show "dedupe [(0, JObj [(k_id, JNum 5), (k_content, JStr (asc ''X''))]),
                (1, JObj [(k_id, JNum 9), (k_content, JStr (asc ''X''))])] r
          = ([(0, JObj [(k_id, JNum 5), (k_content, JStr (asc ''X''))])],
             r\<lparr>changes := changes r @ [DedupHeader, DedupRemoved 1 (JNum 9) (asc ''X'')]\<rparr>,
             [(1, JNum 9, asc ''X'')])"
    by (simp add: dedupe_def dict_get_def k_id_def k_content_def asc_def)
qed

theorem dedupe_keeps_first_occurrences_witness:
  "repeats [(0, JObj [(k_id, JNum 5), (k_content, JStr (asc ''X''))]),
            (1, JObj [(k_id, JNum 9), (k_content, JStr (asc ''X''))])] 1
   \<and> \<not> repeats [(0, JObj [(k_id, JNum 5), (k_content, JStr (asc ''X''))]),
                (1, JObj [(k_id, JNum 9), (k_content, JStr (asc ''X''))])] 0
   \<and> fst (dedupe [(0, JObj [(k_id, JNum 5), (k_content, JStr (asc ''X''))]),
                   (1, JObj [(k_id, JNum 9), (k_content, JStr (asc ''X''))])]
             \<lparr>modified_count = 0, changes = []\<rparr>)
       = [(0, JObj [(k_id, JNum 5), (k_content, JStr (asc ''X''))])]
   \<and> DedupRemoved 1 (JNum 9) (asc ''X'')
       \<in> set (changes (fst (snd
            (dedupe [(0, JObj [(k_id, JNum 5), (k_content, JStr (asc ''X''))]),
                     (1, JObj [(k_id, JNum 9), (k_content, JStr (asc ''X''))])]
               \<lparr>modified_count = 0, changes = []\<rparr>))))"
proof -
  let ?toks = "[(0::nat, JObj [(k_id, JNum 5), (k_content, JStr (asc ''X''))]),
                (1, JObj [(k_id, JNum 9), (k_content, JStr (asc ''X''))])]"
  have c: "content_of (snd (?toks ! 0)) = Some (asc ''X'')"
    "content_of (snd (?toks ! 1)) = Some (asc ''X'')"
    by (simp_all add: content_of_def dict_get_def k_id_def k_content_def asc_def)
  have r1: "repeats ?toks 1" unfolding repeats_def using c by auto
  have r0: "\<not> repeats ?toks 0" unfolding repeats_def by simp
  show ?thesis
    using r0 r1 dedupe_keeps_first_occurrences[of ?toks "\<lparr>modified_count = 0, changes = []\<rparr>"]
    by simp
qed



section \<open>Two concrete runs\<close>

lemma identity_fixes_plain: "nfc_fixes_plain (\<lambda>s. s)"
  by (simp add: nfc_fixes_plain_def)

lemma repair_content_canon:
  assumes nfc: "nfc_fixes_plain nfc" and c: "c \<in> set self_test_expected"
  shows "repair_content nfc c = c"
proof -
  from c obtain p where p: "p \<in> set marker_payloads" and cp: "c = 0x3C # p @ [0x3E]"
    unfolding canonical_of_payloads[symmetric] by auto
  have plain: "list_all plain_cp (0x3C # p @ [0x3E])"
    using plain_canon[OF c] by (simp add: cp)
  have angle: "is_angle_bracketed (0x3C # p @ [0x3E])" by (auto simp: angle_iff)
  have std: "standardize_line_endings p = p"
    by (rule standardize_fixed[OF payload_no_cr[OF p]])
  show ?thesis
    unfolding cp
    using repair_content_plain[OF nfc plain] cleanup_plain_angle[OF nfc plain] angle p
    by (simp add: std payload_fixed[OF p])
qed

lemma canon_distinct: "CANON_BOS \<noteq> CANON_EOS" "CANON_EOS \<noteq> CANON_BOS"
  by (simp_all add: consts_defs)

lemma canon_members: "CANON_BOS \<in> set self_test_expected" "CANON_EOS \<in> set self_test_expected"
  by (simp_all add: self_test_expected_def)

lemma zero_width_plain: "list_all plain_cp s \<Longrightarrow> filter (\<lambda>ch. ch \<in> set ZERO_WIDTHS) s = []"
  by (induction s) (auto simp: ZERO_WIDTHS_def dest!: plain_cases)

lemma scan_string_plain: "list_all plain_cp c \<Longrightarrow> scan_string p c = []"
  using plain_no_remnants[of c]
  by (simp add: scan_string_def has_mojibake_remnants_def zero_width_plain)

lemma more_keys_differ:
  "k_added_tokens \<noteq> k_special_tokens" "k_special_tokens \<noteq> k_added_tokens"
  "k_bos_token \<noteq> k_eos_token" "k_eos_token \<noteq> k_bos_token"
  "k_content \<noteq> k_id" "k_special \<noteq> k_id" "k_normalized \<noteq> k_id"
  "k_special \<noteq> k_content" "k_normalized \<noteq> k_content" "k_normalized \<noteq> k_special"
  by (simp_all add: k_added_tokens_def k_special_tokens_def k_bos_token_def k_eos_token_def
        k_id_def k_content_def k_special_def k_normalized_def asc_def)

subsection \<open>A document whose BeginOfSequence entry is not flagged special\<close>

lemma process_unflagged_bos:
  "process_added_token (\<lambda>s. s) i
     (JObj [(k_id, JNum 0), (k_content, JStr CANON_BOS), (k_special, JBool False)]) r
   = (JObj [(k_id, JNum 0), (k_content, JStr CANON_BOS), (k_special, JBool True),
            (k_normalized, JBool False)], r)"
  using keys_differ more_keys_differ
  by (simp add: process_added_token_def Let_def
        repair_content_canon[OF identity_fixes_plain canon_members(1)])

lemma process_flagged_eos:
  "process_added_token (\<lambda>s. s) i
     (JObj [(k_id, JNum 1), (k_content, JStr CANON_EOS), (k_special, JBool True)]) r
   = (JObj [(k_id, JNum 1), (k_content, JStr CANON_EOS), (k_special, JBool True),
            (k_normalized, JBool False)], r)"
  using keys_differ more_keys_differ
  by (simp add: process_added_token_def Let_def
        repair_content_canon[OF identity_fixes_plain canon_members(2)])

lemma unflagged_pass:
  "fst (repair_pass (\<lambda>s. s)
     [(k_added_tokens,
       JArr [JObj [(k_id, JNum 0), (k_content, JStr CANON_BOS), (k_special, JBool False)],
             JObj [(k_id, JNum 1), (k_content, JStr CANON_EOS), (k_special, JBool True)]])])
   = \<lparr>p_doc = [(k_added_tokens,
                 JArr [JObj [(k_id, JNum 0), (k_content, JStr CANON_BOS),
                             (k_special, JBool True), (k_normalized, JBool False)],
                       JObj [(k_id, JNum 1), (k_content, JStr CANON_EOS),
                             (k_special, JBool True), (k_normalized, JBool False)]])],
      p_added = Some [(0, JObj [(k_id, JNum 0), (k_content, JStr CANON_BOS),
                                (k_special, JBool True), (k_normalized, JBool False)]),
                      (Suc 0, JObj [(k_id, JNum 1), (k_content, JStr CANON_EOS),
                                (k_special, JBool True), (k_normalized, JBool False)])],
      p_st = JNull,
      p_rep = \<lparr>modified_count = 0, changes = []\<rparr>\<rparr>"
proof -
  have l: "load_objs [JObj [(k_id, JNum 0), (k_content, JStr CANON_BOS), (k_special, JBool False)],
                      JObj [(k_id, JNum 1), (k_content, JStr CANON_EOS), (k_special, JBool True)]]
             = [(0, JObj [(k_id, JNum 0), (k_content, JStr CANON_BOS), (k_special, JBool False)]),
                (Suc 0, JObj [(k_id, JNum 1), (k_content, JStr CANON_EOS), (k_special, JBool True)])]"
    by (simp add: load_objs_def upt_rec)
  show ?thesis
    using keys_differ more_keys_differ canon_distinct
    by (simp add: repair_pass_def Let_def dict_get_def l process_unflagged_bos
          process_flagged_eos dedupe_def process_special_tokens_def)
qed

lemma unflagged_checks:
  "infer_bos_eos (\<lambda>s. s)
     (Some [(0, JObj [(k_id, JNum 0), (k_content, JStr CANON_BOS),
                      (k_special, JBool True), (k_normalized, JBool False)]),
            (Suc 0, JObj [(k_id, JNum 1), (k_content, JStr CANON_EOS),
                      (k_special, JBool True), (k_normalized, JBool False)])]) JNull = []"
  "scan_for_remnants
     (Some [(0, JObj [(k_id, JNum 0), (k_content, JStr CANON_BOS),
                      (k_special, JBool True), (k_normalized, JBool False)]),
            (Suc 0, JObj [(k_id, JNum 1), (k_content, JStr CANON_EOS),
                      (k_special, JBool True), (k_normalized, JBool False)])]) JNull = []"
  "check_flags 0
     [(0, JObj [(k_id, JNum 0), (k_content, JStr CANON_BOS),
                (k_special, JBool True), (k_normalized, JBool False)]),
      (Suc 0, JObj [(k_id, JNum 1), (k_content, JStr CANON_EOS),
                (k_special, JBool True), (k_normalized, JBool False)])] = []"
  "check_flags_entry i (JObj [(k_id, JNum 0), (k_content, JStr CANON_BOS),
                              (k_special, JBool True), (k_normalized, JBool False)]) = []"
  "check_flags_entry i (JObj [(k_id, JNum 1), (k_content, JStr CANON_EOS),
                              (k_special, JBool True), (k_normalized, JBool False)]) = []"
  using keys_differ more_keys_differ canon_distinct
    plain_canon[OF canon_members(1)] plain_canon[OF canon_members(2)]
  by (simp_all add: infer_bos_eos_def found_in_list_def dict_get_def scan_for_remnants_def
        scan_string_plain check_flags_entry_def)

text \<open>
  Claim C9, as stated.  A run over a document whose entry with the canonical
  BeginOfSequence content carries \<open>special = false\<close> reports no validation error at all
  and writes the document: the pass has set the flag before the check looks at it.
\<close>

theorem unflagged_bos_run_reports_nothing:
  "reported (main (\<lambda>s. s)
     \<lparr>dry = False,
      tokenizer_json = Holds (JObj [(k_added_tokens,
        JArr [JObj [(k_id, JNum 0), (k_content, JStr CANON_BOS), (k_special, JBool False)],
              JObj [(k_id, JNum 1), (k_content, JStr CANON_EOS), (k_special, JBool True)]])]),
      spmap_json = Absent, tcfg_json = Absent, more_errors = []\<rparr>) = []
   \<and> outcome (main (\<lambda>s. s)
     \<lparr>dry = False,
      tokenizer_json = Holds (JObj [(k_added_tokens,
        JArr [JObj [(k_id, JNum 0), (k_content, JStr CANON_BOS), (k_special, JBool False)],
              JObj [(k_id, JNum 1), (k_content, JStr CANON_EOS), (k_special, JBool True)]])]),
      spmap_json = Absent, tcfg_json = Absent, more_errors = []\<rparr>) = Written"
  by (simp add: main_on_object unflagged_pass finish_run_def spmap_stage_def tcfg_stage_def
        unflagged_checks reported_def Let_def)

text \<open>
  Claim C9, amended.  The flag check itself, given a collection that holds at index
  \<open>i\<close> an entry with the canonical BeginOfSequence content whose \<open>special\<close> flag is
  false or missing, reports the missing flag for \<open>i\<close>; it only reads the entries.  In a
  run the check sees the collection after the pass and the deduplication, and there it
  finds nothing.
\<close>

theorem flag_check_reports_unprocessed_entry:
  "(\<forall>d i a toks.
      dict_get d k_content = JStr CANON_BOS \<longrightarrow>
      \<not> py_truthy (case map_of d k_special of Some v \<Rightarrow> v | None \<Rightarrow> JBool False) \<longrightarrow>
      i < length toks \<longrightarrow> toks ! i = (a, JObj d) \<longrightarrow>
        NotSpecial i (dict_get d k_id) \<in> set (check_flags 0 toks))
   \<and> check_flags idx (fst (dedupe (fst (process_added_tokens nfc idx' toks0 r)) r')) = []"
proof (intro conjI allI impI)
  fix d i a and toks :: "obj list"
  assume c: "dict_get d k_content = JStr CANON_BOS"
    and s: "\<not> py_truthy (case map_of d k_special of Some v \<Rightarrow> v | None \<Rightarrow> JBool False)"
    and i: "i < length toks" and t: "toks ! i = (a, JObj d)"
  have "NotSpecial i (dict_get d k_id) \<in> set (check_flags_entry i (JObj d))"
    using c s by (simp add: check_flags_entry_def)
  with check_flags_at[OF i, of 0] t show "NotSpecial i (dict_get d k_id) \<in> set (check_flags 0 toks)"
    by auto
next
  show "check_flags idx (fst (dedupe (fst (process_added_tokens nfc idx' toks0 r)) r')) = []"
    by (rule processed_flags_clean)
qed

theorem flag_check_reports_unprocessed_entry_witness:
  "check_flags 0
     [(0, JObj [(k_id, JNum 0), (k_content, JStr CANON_BOS), (k_special, JBool False)])]
     \<noteq> []
   \<and> NotSpecial 0 (JNum 0) \<in> set (check_flags 0
       [(0, JObj [(k_id, JNum 0), (k_content, JStr CANON_BOS), (k_special, JBool False)])])"
proof -
  let ?d = "[(k_id, JNum 0), (k_content, JStr CANON_BOS), (k_special, JBool False)]"
  have c: "dict_get ?d k_content = JStr CANON_BOS"
    using more_keys_differ by (simp add: dict_get_def)
  have s: "\<not> py_truthy (case map_of ?d k_special of Some v \<Rightarrow> v | None \<Rightarrow> JBool False)"
    using more_keys_differ by simp
  have i: "dict_get ?d k_id = JNum 0" by (simp add: dict_get_def)
  have "NotSpecial 0 (dict_get ?d k_id) \<in> set (check_flags 0 [(0, JObj ?d)])"
    using flag_check_reports_unprocessed_entry[of 0 nfc 0 "[]" r r'] c s
    by (metis length_Cons less_Suc_eq_0_disj nth_Cons_0)
  then show ?thesis unfolding i by auto
qed

subsection \<open>A run that fails validation beside two companion files\<close>

lemma cleanup_s: "cleanup_marker_like_string (\<lambda>s. s) (asc ''<s>'') = asc ''<s>''"
proof -
  have e: "asc ''<s>'' = 0x3C # asc ''s'' @ [0x3E]" by (simp add: asc_def)
  have plain: "list_all plain_cp (0x3C # asc ''s'' @ [0x3E])"
    by (simp add: asc_def plain_cp_def)
  have std: "standardize_line_endings (asc ''s'') = asc ''s''"
    by (rule standardize_fixed) (simp add: asc_def)
  have n: "bar_subst (asc ''s'') \<notin> set marker_payloads"
    by (simp add: bar_subst_def marker_payloads_def consts_defs)
  show ?thesis
    unfolding e using cleanup_plain_angle[OF identity_fixes_plain plain] n by (simp add: std)
qed

lemma looks_like_s:
  "looks_like_one_of_four_chat_markers (asc ''<s>'') = (False, asc ''<s>'')"
proof -
  have e: "asc ''<s>'' = 0x3C # asc ''s'' @ [0x3E]" by (simp add: asc_def)
  have n: "bar_subst (asc ''s'') \<notin> set marker_payloads"
    by (simp add: bar_subst_def marker_payloads_def consts_defs)
  show ?thesis unfolding e looks_like_shape using n by simp
qed

lemma spmap_stage_s:
  "spmap_stage (\<lambda>s. s) False (Holds (JObj [(k_bos_token, JStr (asc ''<s>''))])) p
   = (changes (p_rep p), [BosMismatch (asc ''<s>'')],
      [(SpmapBak, Holds (JObj [(k_bos_token, JStr (asc ''<s>''))])),
       (SpmapFile, Holds (JObj [(k_bos_token, JStr (asc ''<s>''))]))])"
proof -
  have ne: "asc ''<s>'' \<noteq> CANON_BOS" by (simp add: consts_defs)
  show ?thesis
    using more_keys_differ ne
    by (simp add: spmap_stage_def spmap_loop_def spmap_step_def cleanup_s looks_like_s
          validate_bos_eos_value_def Let_def)
qed

lemma template_crlf:
  "fix_markers_in_text (\<lambda>s. s) ([0x61, 0x0D, 0x0A, 0x62]) = [0x61, 0x0A, 0x62]"
proof -
  let ?s = "[0x61, 0x0D, 0x0A, 0x62]"
  have plain: "list_all plain_cp ?s" by (simp add: plain_cp_def)
  have 1: "demojibake_and_normalize (\<lambda>s. s) ?s = ?s"
    by (rule demojibake_plain[OF identity_fixes_plain plain])
  have 2: "strip_zero_width_and_variation ?s = ?s" by (rule strip_zero_plain[OF plain])
  have 3: "standardize_line_endings ?s = [0x61, 0x0A, 0x62]"
    by (simp add: standardize_line_endings_def)
  have 4: "scan_segments (\<lambda>s. s) ([0x61, 0x0A, 0x62]) = [0x61, 0x0A, 0x62]"
    by simp
  show ?thesis by (simp only: fix_markers_in_text_def Let_def 1 2 3 4)
qed

lemma tcfg_stage_crlf:
  "tcfg_stage (\<lambda>s. s) False
     (Holds (JObj [(k_chat_template, JStr ([0x61, 0x0D, 0x0A, 0x62]))]))
   = ([TemplateUpdated], [],
      [(TcfgBak, Holds (JObj [(k_chat_template, JStr ([0x61, 0x0D, 0x0A, 0x62]))])),
       (TcfgFile, Holds (JObj [(k_chat_template, JStr ([0x61, 0x0A, 0x62]))]))])"
proof -
  have ne: "[0x61, 0x0A, 0x62] \<noteq> [0x61, 0x0D, 0x0A, 0x62 :: nat]"
    by simp
  have g: "dict_get [(k_chat_template, JStr ([0x61, 0x0D, 0x0A, 0x62]))]
             k_chat_template = JStr ([0x61, 0x0D, 0x0A, 0x62])"
    by (simp add: dict_get_def)
  show ?thesis
    unfolding tcfg_stage_def using ne by (simp add: g template_crlf Let_def)
qed

lemma empty_pass:
  "fst (repair_pass nfc [])
     = \<lparr>p_doc = [], p_added = None, p_st = JNull,
        p_rep = \<lparr>modified_count = 0, changes = []\<rparr>\<rparr>"
  by (simp add: repair_pass_def Let_def dict_get_def process_special_tokens_def)

text \<open>
  Claim C2.  A run, not dry, over an empty tokenizer document beside a special-token
  map whose \<open>bos_token\<close> is \<open><s>\<close> and a template config whose template has a CRLF line
  ending: validation fails with the BeginOfSequence mismatch, the primary document is
  not written, and yet both companion files and their backups have been written.
\<close>

theorem failed_validation_writes_companions:
  "outcome (main (\<lambda>s. s)
     \<lparr>dry = False, tokenizer_json = Holds (JObj []),
      spmap_json = Holds (JObj [(k_bos_token, JStr (asc ''<s>''))]),
      tcfg_json = Holds (JObj [(k_chat_template,
                                JStr ([0x61, 0x0D, 0x0A, 0x62]))]),
      more_errors = []\<rparr>) = ValidationFailed [BosMismatch (asc ''<s>'')]
   \<and> map fst (writes (main (\<lambda>s. s)
     \<lparr>dry = False, tokenizer_json = Holds (JObj []),
      spmap_json = Holds (JObj [(k_bos_token, JStr (asc ''<s>''))]),
      tcfg_json = Holds (JObj [(k_chat_template,
                                JStr ([0x61, 0x0D, 0x0A, 0x62]))]),
      more_errors = []\<rparr>)) = [SpmapBak, SpmapFile, TcfgBak, TcfgFile]"
  by (simp add: main_on_object empty_pass finish_run_def spmap_stage_s tcfg_stage_crlf
        scan_for_remnants_def Let_def)

end
